theory Spec2Isabelle
  imports Complex_Main "HOL-Library.Word" "HOL-Library.Log_Nat"
begin

section \<open>Strings and subtask nodes\<close>

text \<open>
  A JavaScript string is a sequence of UTF-16 code units.  \<open>js\<close> turns an Isabelle
  string literal (characters below U+0100) into one.
\<close>

type_synonym jstring = "16 word list"

definition js :: "string \<Rightarrow> jstring" where
  "js s = map of_char s"

text \<open>
  A subtask node as \<^verbatim>\<open>Goals.jsx\<close> creates it:
  \<^verbatim>\<open>{ id: uid(), title, completed: false, children: [] }\<close>.
  The id and the title are strings and the flag is a boolean.  The helpers guard every
  read of \<^verbatim>\<open>children\<close> (\<^verbatim>\<open>s.children?.length\<close>, \<^verbatim>\<open>s.children || []\<close>), so that
  field may be absent: \<open>None\<close> is the absent property, \<open>Some []\<close> the empty array.
\<close>

datatype node = Node (node_id: jstring) (title: jstring) (completed: bool)
  (children: "node list option")

section \<open>Tree operations\<close>

text \<open>
  Each helper walks a sibling list and, for one node, looks at \<^verbatim>\<open>s.children?.length\<close>:
  that condition holds for a non-empty array only, which is the pattern \<open>Some (k # ks)\<close>.
  The second function of each pair is the body of the loop or of the \<^verbatim>\<open>map\<close> callback.

  \<^verbatim>\<open>flattenSubs\<close>: the loop pushes \<open>s\<close>, then the flattening of its children.
\<close>

fun flattenSubs :: "node list \<Rightarrow> node list"
  and flattenNode :: "node \<Rightarrow> node list" where
  "flattenSubs [] = []"
| "flattenSubs (s # subs) = flattenNode s @ flattenSubs subs"
| "flattenNode (Node i t c ch) =
     Node i t c ch #
       (case ch of Some (k # ks) \<Rightarrow> flattenSubs (k # ks) | _ \<Rightarrow> [])"

definition countAllSubs :: "node list \<Rightarrow> nat" where
  "countAllSubs subs = length (flattenSubs subs)"

definition countCompletedSubs :: "node list \<Rightarrow> nat" where
  "countCompletedSubs subs = length (filter completed (flattenSubs subs))"

text \<open>
  \<^verbatim>\<open>addChildSub\<close>: a node with the parent id gets \<^verbatim>\<open>[...(s.children || []), child]\<close>
  (an empty array is truthy, so only an absent \<^verbatim>\<open>children\<close> is replaced) and is not
  descended into; any other node with children is rebuilt around the recursive result.
\<close>

fun addChildSub :: "node list \<Rightarrow> jstring \<Rightarrow> node \<Rightarrow> node list"
  and addChildNode :: "node \<Rightarrow> jstring \<Rightarrow> node \<Rightarrow> node" where
  "addChildSub [] parentId child = []"
| "addChildSub (s # subs) parentId child =
     addChildNode s parentId child # addChildSub subs parentId child"
| "addChildNode (Node i t c ch) parentId child =
     (if i = parentId
        then Node i t c (Some ((case ch of Some ks \<Rightarrow> ks | None \<Rightarrow> []) @ [child]))
      else (case ch of
              Some (k # ks) \<Rightarrow> Node i t c (Some (addChildSub (k # ks) parentId child))
            | _ \<Rightarrow> Node i t c ch))"

text \<open>
  \<^verbatim>\<open>removeSubById\<close>: \<^verbatim>\<open>subs.filter(s => s.id !== id).map(...)\<close>, the filter and the
  map fused into one pass over the siblings.
\<close>

fun removeSubById :: "node list \<Rightarrow> jstring \<Rightarrow> node list"
  and removeNode :: "node \<Rightarrow> jstring \<Rightarrow> node" where
  "removeSubById [] rid = []"
| "removeSubById (s # subs) rid =
     (if node_id s \<noteq> rid then removeNode s rid # removeSubById subs rid
      else removeSubById subs rid)"
| "removeNode (Node i t c ch) rid =
     (case ch of
        Some (k # ks) \<Rightarrow> Node i t c (Some (removeSubById (k # ks) rid))
      | _ \<Rightarrow> Node i t c ch)"

text \<open>\<^verbatim>\<open>toggleSubById\<close>: \<^verbatim>\<open>{ ...s, completed: !s.completed }\<close> on a node with the id.\<close>

fun toggleSubById :: "node list \<Rightarrow> jstring \<Rightarrow> node list"
  and toggleNode :: "node \<Rightarrow> jstring \<Rightarrow> node" where
  "toggleSubById [] tid = []"
| "toggleSubById (s # subs) tid = toggleNode s tid # toggleSubById subs tid"
| "toggleNode (Node i t c ch) tid =
     (if i = tid then Node i t (\<not> c) ch
      else (case ch of
              Some (k # ks) \<Rightarrow> Node i t c (Some (toggleSubById (k # ks) tid))
            | _ \<Rightarrow> Node i t c ch))"


section \<open>Which nodes a by-id operation reaches\<close>

text \<open>
  Auxiliary notions for stating what the operations do when an id occurs more than once.
  \<open>hits subs i\<close> lists, in pre-order, the nodes with id \<open>i\<close> that have no ancestor with
  id \<open>i\<close>; \<open>others subs i\<close> lists the id, title and flag of every node that is neither
  such a node nor below one.
\<close>

fun hits :: "node list \<Rightarrow> jstring \<Rightarrow> node list"
  and hitsNode :: "node \<Rightarrow> jstring \<Rightarrow> node list" where
  "hits [] i = []"
| "hits (s # subs) i = hitsNode s i @ hits subs i"
| "hitsNode (Node j t c ch) i =
     (if j = i then [Node j t c ch]
      else (case ch of Some ks \<Rightarrow> hits ks i | None \<Rightarrow> []))"

fun others :: "node list \<Rightarrow> jstring \<Rightarrow> (jstring \<times> jstring \<times> bool) list"
  and othersNode :: "node \<Rightarrow> jstring \<Rightarrow> (jstring \<times> jstring \<times> bool) list" where
  "others [] i = []"
| "others (s # subs) i = othersNode s i @ others subs i"
| "othersNode (Node j t c ch) i =
     (if j = i then []
      else (j, t, c) # (case ch of Some ks \<Rightarrow> others ks i | None \<Rightarrow> []))"

text \<open>A node with its flag negated, and a node with one more last child.\<close>

definition flipped :: "node \<Rightarrow> node" where
  "flipped h = Node (node_id h) (title h) (\<not> completed h) (children h)"

definition extended :: "node \<Rightarrow> node \<Rightarrow> node" where
  "extended child h =
     Node (node_id h) (title h) (completed h)
       (Some ((case children h of Some ks \<Rightarrow> ks | None \<Rightarrow> []) @ [child]))"

section \<open>JSON values and \<^verbatim>\<open>JSON.parse\<close>\<close>

text \<open>
  The codec stores a task's subtasks inside the description string, with the built-in
  \<^verbatim>\<open>JSON.stringify\<close> and \<^verbatim>\<open>JSON.parse\<close>.  Both are modelled from the ECMAScript
  definition.  A number keeps the exact decimal value of its literal, where JavaScript
  rounds it to a double; an object keeps its properties in the order of the text, a
  repeated key overwriting the earlier value in place.
\<close>

datatype json =
    JNull
  | JBool bool
  | JNum rat
  | JStr jstring
  | JArr "json list"
  | JObj "(jstring \<times> json) list"

text \<open>JSON white space: space, tab, line feed, carriage return.\<close>

definition is_ws :: "16 word \<Rightarrow> bool" where
  "is_ws c = (c = 0x20 \<or> c = 0x09 \<or> c = 0x0A \<or> c = 0x0D)"

definition skip_ws :: "jstring \<Rightarrow> jstring" where
  "skip_ws s = dropWhile is_ws s"

text \<open>Hexadecimal digits \<open>0-9\<close>, \<open>A-F\<close>, \<open>a-f\<close> and the four digits of a \<^verbatim>\<open>\u\<close> escape.\<close>

definition hex_val :: "16 word \<Rightarrow> nat option" where
  "hex_val c =
     (if 0x30 \<le> c \<and> c \<le> 0x39 then Some (unat c - 0x30)
      else if 0x41 \<le> c \<and> c \<le> 0x46 then Some (unat c - 0x41 + 10)
      else if 0x61 \<le> c \<and> c \<le> 0x66 then Some (unat c - 0x61 + 10)
      else None)"

definition hex4 :: "16 word \<Rightarrow> 16 word \<Rightarrow> 16 word \<Rightarrow> 16 word \<Rightarrow> 16 word option" where
  "hex4 a b c d =
     (case (hex_val a, hex_val b, hex_val c, hex_val d) of
        (Some w, Some x, Some y, Some z) \<Rightarrow>
          Some (of_nat (((w * 16 + x) * 16 + y) * 16 + z))
      | _ \<Rightarrow> None)"

text \<open>
  The character after a backslash: \<^verbatim>\<open>"\<close>, \<^verbatim>\<open>\\<close>, \<^verbatim>\<open>/\<close>, \<^verbatim>\<open>b\<close>, \<^verbatim>\<open>f\<close>, \<^verbatim>\<open>n\<close>,
  \<^verbatim>\<open>r\<close>, \<^verbatim>\<open>t\<close>.
\<close>

definition unescape :: "16 word \<Rightarrow> 16 word option" where
  "unescape e =
     (if e = 0x22 then Some 0x22
      else if e = 0x5C then Some 0x5C
      else if e = 0x2F then Some 0x2F
      else if e = 0x62 then Some 0x08
      else if e = 0x66 then Some 0x0C
      else if e = 0x6E then Some 0x0A
      else if e = 0x72 then Some 0x0D
      else if e = 0x74 then Some 0x09
      else None)"

text \<open>
  The characters of a string after its opening quote, up to and including the closing
  quote: the decoded string and the rest of the input.  A control character below U+0020
  must be escaped.
\<close>

fun parse_string_chars :: "jstring \<Rightarrow> (jstring \<times> jstring) option" where
  "parse_string_chars [] = None"
| "parse_string_chars (c # cs) =
     (if c = 0x22 then Some ([], cs)
      else if c = 0x5C then
        (case cs of
           [] \<Rightarrow> None
         | e # es \<Rightarrow>
             if e = 0x75 then
               (case es of
                  a # b # c' # d # rest \<Rightarrow>
                    (case hex4 a b c' d of
                       None \<Rightarrow> None
                     | Some u \<Rightarrow>
                         (case parse_string_chars rest of
                            None \<Rightarrow> None
                          | Some (str, r) \<Rightarrow> Some (u # str, r)))
                | _ \<Rightarrow> None)
             else
               (case unescape e of
                  None \<Rightarrow> None
                | Some u \<Rightarrow>
                    (case parse_string_chars es of
                       None \<Rightarrow> None
                     | Some (str, r) \<Rightarrow> Some (u # str, r))))
      else if c < 0x20 then None
      else
        (case parse_string_chars cs of
           None \<Rightarrow> None
         | Some (str, r) \<Rightarrow> Some (c # str, r)))"

text \<open>
  Numbers: an optional minus, an integer part without a leading zero, an optional
  fraction and an optional exponent.
\<close>

definition is_digit :: "16 word \<Rightarrow> bool" where
  "is_digit c = (0x30 \<le> c \<and> c \<le> 0x39)"

definition digits_val :: "jstring \<Rightarrow> nat" where
  "digits_val ds = foldl (\<lambda>a c. 10 * a + (unat c - 0x30)) 0 ds"

definition parse_frac :: "jstring \<Rightarrow> (jstring \<times> jstring) option" where
  "parse_frac s =
     (case s of
        [] \<Rightarrow> Some ([], s)
      | c # cs \<Rightarrow>
          if c = 0x2E then
            (let fr = takeWhile is_digit cs
             in if fr = [] then None else Some (fr, dropWhile is_digit cs))
          else Some ([], s))"

definition parse_digits1 :: "jstring \<Rightarrow> (nat \<times> jstring) option" where
  "parse_digits1 s =
     (let ds = takeWhile is_digit s
      in if ds = [] then None else Some (digits_val ds, dropWhile is_digit s))"

definition parse_exp :: "jstring \<Rightarrow> (int \<times> jstring) option" where
  "parse_exp s =
     (case s of
        [] \<Rightarrow> Some (0, s)
      | c # cs \<Rightarrow>
          if c = 0x65 \<or> c = 0x45 then
            (case cs of
               [] \<Rightarrow> None
             | d # ds \<Rightarrow>
                 if d = 0x2D then map_option (\<lambda>(n, r). (- int n, r)) (parse_digits1 ds)
                 else if d = 0x2B then map_option (\<lambda>(n, r). (int n, r)) (parse_digits1 ds)
                 else map_option (\<lambda>(n, r). (int n, r)) (parse_digits1 cs))
          else Some (0, s))"

definition scale10 :: "rat \<Rightarrow> int \<Rightarrow> rat" where
  "scale10 m e = (if 0 \<le> e then m * 10 ^ nat e else m / 10 ^ nat (- e))"

definition parse_unsigned :: "jstring \<Rightarrow> (rat \<times> jstring) option" where
  "parse_unsigned s =
     (case s of
        [] \<Rightarrow> None
      | c # cs \<Rightarrow>
          if \<not> is_digit c then None
          else
            (let ip = (if c = 0x30 then [c] else takeWhile is_digit s);
                 s1 = (if c = 0x30 then cs else dropWhile is_digit s)
             in case parse_frac s1 of
                  None \<Rightarrow> None
                | Some (fr, s2) \<Rightarrow>
                    (case parse_exp s2 of
                       None \<Rightarrow> None
                     | Some (ex, s3) \<Rightarrow>
                         Some (scale10 (of_nat (digits_val (ip @ fr)))
                                 (ex - int (length fr)), s3))))"

definition parse_number :: "jstring \<Rightarrow> (rat \<times> jstring) option" where
  "parse_number s =
     (case s of
        [] \<Rightarrow> None
      | c # cs \<Rightarrow>
          if c = 0x2D then map_option (\<lambda>(x, r). (- x, r)) (parse_unsigned cs)
          else parse_unsigned s)"

text \<open>Defining a property: a key that is already there keeps its place.\<close>

fun set_prop :: "jstring \<Rightarrow> json \<Rightarrow> (jstring \<times> json) list \<Rightarrow> (jstring \<times> json) list" where
  "set_prop k v [] = [(k, v)]"
| "set_prop k v ((k', v') # kvs) =
     (if k' = k then (k, v) # kvs else (k', v') # set_prop k v kvs)"

definition make_object :: "(jstring \<times> json) list \<Rightarrow> json" where
  "make_object kvs = JObj (foldl (\<lambda>acc (k, v). set_prop k v acc) [] kvs)"

text \<open>
  A value, the elements of a non-empty array (up to and including \<^verbatim>\<open>]\<close>) and the
  members of a non-empty object (up to and including \<^verbatim>\<open>}\<close>).  Each returns what it
  read and the rest of the input.  The comparisons of lengths before the recursive calls
  are there for the termination proof.
\<close>

function parse_value :: "jstring \<Rightarrow> (json \<times> jstring) option"
  and parse_elems :: "jstring \<Rightarrow> (json list \<times> jstring) option"
  and parse_members :: "jstring \<Rightarrow> ((jstring \<times> json) list \<times> jstring) option" where
  "parse_value s =
     (case skip_ws s of
        [] \<Rightarrow> None
      | c # cs \<Rightarrow>
          if c = 0x5B then
            (case skip_ws cs of
               [] \<Rightarrow> None
             | d # ds \<Rightarrow>
                 if d = 0x5D then Some (JArr [], ds)
                 else (case parse_elems (d # ds) of
                         None \<Rightarrow> None
                       | Some (vs, r) \<Rightarrow> Some (JArr vs, r)))
          else if c = 0x7B then
            (case skip_ws cs of
               [] \<Rightarrow> None
             | d # ds \<Rightarrow>
                 if d = 0x7D then Some (JObj [], ds)
                 else (case parse_members (d # ds) of
                         None \<Rightarrow> None
                       | Some (kvs, r) \<Rightarrow> Some (make_object kvs, r)))
          else if c = 0x22 then
            (case parse_string_chars cs of
               None \<Rightarrow> None
             | Some (str, r) \<Rightarrow> Some (JStr str, r))
          else if take 4 (c # cs) = [0x74, 0x72, 0x75, 0x65] then
            Some (JBool True, drop 3 cs)
          else if take 5 (c # cs) = [0x66, 0x61, 0x6C, 0x73, 0x65] then
            Some (JBool False, drop 4 cs)
          else if take 4 (c # cs) = [0x6E, 0x75, 0x6C, 0x6C] then
            Some (JNull, drop 3 cs)
          else (case parse_number (c # cs) of
                  None \<Rightarrow> None
                | Some (x, r) \<Rightarrow> Some (JNum x, r)))"
| "parse_elems s =
     (case parse_value s of
        None \<Rightarrow> None
      | Some (v, r) \<Rightarrow>
          (case skip_ws r of
             [] \<Rightarrow> None
           | c # cs \<Rightarrow>
               if c = 0x5D then Some ([v], cs)
               else if c = 0x2C \<and> length cs < length s then
                 (case parse_elems cs of
                    None \<Rightarrow> None
                  | Some (vs, r') \<Rightarrow> Some (v # vs, r'))
               else None))"
| "parse_members s =
     (case skip_ws s of
        [] \<Rightarrow> None
      | c # cs \<Rightarrow>
          if c \<noteq> 0x22 then None
          else
            (case parse_string_chars cs of
               None \<Rightarrow> None
             | Some (k, r) \<Rightarrow>
                 (case skip_ws r of
                    [] \<Rightarrow> None
                  | c2 # cs2 \<Rightarrow>
                      if c2 = 0x3A \<and> length cs2 < length s then
                        (case parse_value cs2 of
                           None \<Rightarrow> None
                         | Some (v, r2) \<Rightarrow>
                             (case skip_ws r2 of
                                [] \<Rightarrow> None
                              | c3 # cs3 \<Rightarrow>
                                  if c3 = 0x7D then Some ([(k, v)], cs3)
                                  else if c3 = 0x2C \<and> length cs3 < length s then
                                    (case parse_members cs3 of
                                       None \<Rightarrow> None
                                     | Some (kvs, r3) \<Rightarrow> Some ((k, v) # kvs, r3))
                                  else None))
                      else None)))"
  by pat_completeness auto
termination
proof (relation "measure (\<lambda>x. case x of
          Inl s \<Rightarrow> 2 * length s
        | Inr (Inl s) \<Rightarrow> 2 * length s + 1
        | Inr (Inr s) \<Rightarrow> 2 * length s + 1)")
  have ws: "length cs < length s" if "skip_ws s = c # cs" for s :: jstring and c cs
  proof -
    have "length (skip_ws s) \<le> length s"
      unfolding skip_ws_def by (rule length_dropWhile_le)
    with that show ?thesis by simp
  qed
  show "wf (measure (\<lambda>x. case x of
          Inl s \<Rightarrow> 2 * length s
        | Inr (Inl s) \<Rightarrow> 2 * length s + 1
        | Inr (Inr s) \<Rightarrow> 2 * length s + 1))"
    by simp
  fix s c cs d ds
  assume a: "skip_ws s = c # cs" "skip_ws cs = d # ds"
  from ws [OF a(1)] ws [OF a(2)]
  show "(Inr (Inl (d # ds)), Inl s) \<in> measure (\<lambda>x. case x of
          Inl s \<Rightarrow> 2 * length s
        | Inr (Inl s) \<Rightarrow> 2 * length s + 1
        | Inr (Inr s) \<Rightarrow> 2 * length s + 1)"
    by simp
  from ws [OF a(1)] ws [OF a(2)]
  show "(Inr (Inr (d # ds)), Inl s) \<in> measure (\<lambda>x. case x of
          Inl s \<Rightarrow> 2 * length s
        | Inr (Inl s) \<Rightarrow> 2 * length s + 1
        | Inr (Inr s) \<Rightarrow> 2 * length s + 1)"
    by simp
qed auto

declare parse_value.simps [simp del] parse_elems.simps [simp del]
  parse_members.simps [simp del]

text \<open>\<^verbatim>\<open>JSON.parse\<close>: one value, white space around it, nothing after it.\<close>

definition json_parse :: "jstring \<Rightarrow> json option" where
  "json_parse s =
     (case parse_value s of
        None \<Rightarrow> None
      | Some (v, r) \<Rightarrow> if skip_ws r = [] then Some v else None)"

section \<open>\<^verbatim>\<open>JSON.stringify\<close> of the envelope\<close>

text \<open>
  \<^verbatim>\<open>QuoteJSONString\<close>: two-character escapes for backspace, tab, line feed, form feed,
  carriage return, the quote and the backslash; \<^verbatim>\<open>\uXXXX\<close> with lower-case digits for
  the other control characters and for a surrogate that is not part of a pair.
\<close>

definition is_lead :: "16 word \<Rightarrow> bool" where
  "is_lead c = (0xD800 \<le> c \<and> c \<le> 0xDBFF)"

definition is_trail :: "16 word \<Rightarrow> bool" where
  "is_trail c = (0xDC00 \<le> c \<and> c \<le> 0xDFFF)"

definition hex_digit :: "nat \<Rightarrow> 16 word" where
  "hex_digit n = of_nat (if n < 10 then 0x30 + n else 0x57 + n)"

definition unicode_escape :: "16 word \<Rightarrow> jstring" where
  "unicode_escape c =
     [0x5C, 0x75, hex_digit (unat c div 4096), hex_digit (unat c div 256 mod 16),
      hex_digit (unat c div 16 mod 16), hex_digit (unat c mod 16)]"

definition escape_unit :: "16 word \<Rightarrow> jstring" where
  "escape_unit c =
     (if c = 0x08 then [0x5C, 0x62]
      else if c = 0x09 then [0x5C, 0x74]
      else if c = 0x0A then [0x5C, 0x6E]
      else if c = 0x0C then [0x5C, 0x66]
      else if c = 0x0D then [0x5C, 0x72]
      else if c = 0x22 then [0x5C, 0x22]
      else if c = 0x5C then [0x5C, 0x5C]
      else if c < 0x20 \<or> is_lead c \<or> is_trail c then unicode_escape c
      else [c])"

fun quote_chars :: "jstring \<Rightarrow> jstring" where
  "quote_chars [] = []"
| "quote_chars [c] = escape_unit c"
| "quote_chars (c # d # cs) =
     (if is_lead c \<and> is_trail d then c # d # quote_chars cs
      else escape_unit c @ quote_chars (d # cs))"

definition quote :: "jstring \<Rightarrow> jstring" where
  "quote s = 0x22 # quote_chars s @ [0x22]"

text \<open>
  A node is serialised with its properties in the order in which \<^verbatim>\<open>Goals.jsx\<close> creates
  them, \<^verbatim>\<open>id\<close>, \<^verbatim>\<open>title\<close>, \<^verbatim>\<open>completed\<close>, \<^verbatim>\<open>children\<close>; an absent
  \<^verbatim>\<open>children\<close> is left out.  No white space is inserted.
\<close>

definition bool_text :: "bool \<Rightarrow> jstring" where
  "bool_text c = (if c then js ''true'' else js ''false'')"

fun stringify_node :: "node \<Rightarrow> jstring"
  and stringify_elems :: "node list \<Rightarrow> jstring" where
  "stringify_node (Node i t c ch) =
     js ''{\"id\":'' @ quote i @ js '',\"title\":'' @ quote t @ js '',\"completed\":''
       @ bool_text c
       @ (case ch of
            None \<Rightarrow> []
          | Some ks \<Rightarrow> js '',\"children\":['' @ stringify_elems ks @ js '']'')
       @ js ''}''"
| "stringify_elems [] = []"
| "stringify_elems [n] = stringify_node n"
| "stringify_elems (n # m # ms) = stringify_node n @ js '','' @ stringify_elems (m # ms)"

text \<open>The value that a node is as a parsed JSON object.\<close>

fun json_of_node :: "node \<Rightarrow> json" where
  "json_of_node (Node i t c ch) =
     JObj ([(js ''id'', JStr i), (js ''title'', JStr t), (js ''completed'', JBool c)]
           @ (case ch of
                None \<Rightarrow> []
              | Some ks \<Rightarrow> [(js ''children'', JArr (map json_of_node ks))]))"

text \<open>\<^verbatim>\<open>JSON.stringify({ text, subtasks })\<close>.\<close>

definition stringify_envelope :: "jstring \<Rightarrow> node list \<Rightarrow> jstring" where
  "stringify_envelope t subs =
     js ''{\"text\":'' @ quote t @ js '',\"subtasks\":['' @ stringify_elems subs @ js '']}''"

section \<open>Reading parsed values\<close>

text \<open>
  A property read \<^verbatim>\<open>d.k\<close> on a parsed value that is not \<^verbatim>\<open>null\<close>: \<open>None\<close> is
  \<^verbatim>\<open>undefined\<close>.  Only an object parsed from JSON has the properties \<^verbatim>\<open>text\<close> and
  \<^verbatim>\<open>subtasks\<close> that the codec reads; an array, a string, a number and a boolean do not.
\<close>

fun get_prop :: "json \<Rightarrow> jstring \<Rightarrow> json option" where
  "get_prop (JObj kvs) k = map_of kvs k"
| "get_prop d k = None"

text \<open>
  Truthiness.  A number literal is falsy when its double is zero, which is when its
  magnitude is at most \<open>2\<^sup>-\<^sup>1\<^sup>0\<^sup>7\<^sup>5\<close>, half the least positive double.
\<close>

fun js_truthy :: "json \<Rightarrow> bool" where
  "js_truthy JNull = False"
| "js_truthy (JBool b) = b"
| "js_truthy (JNum x) = (1 / 2 ^ 1075 < \<bar>x\<bar>)"
| "js_truthy (JStr s) = (s \<noteq> [])"
| "js_truthy (JArr xs) = True"
| "js_truthy (JObj kvs) = True"

text \<open>
  The typed reading of a parsed value as a subtask node: an object whose \<^verbatim>\<open>id\<close> and
  \<^verbatim>\<open>title\<close> are strings, whose \<^verbatim>\<open>completed\<close> is a boolean and whose \<^verbatim>\<open>children\<close>,
  if present, is an array of such objects.  \<open>None\<close> says that the value is not a subtask
  node of the data model.
\<close>

function node_of_json :: "json \<Rightarrow> node option" where
  "node_of_json (JObj kvs) =
     (case (map_of kvs (js ''id''), map_of kvs (js ''title''), map_of kvs (js ''completed'')) of
        (Some (JStr i), Some (JStr t), Some (JBool c)) \<Rightarrow>
          (case map_of kvs (js ''children'') of
             None \<Rightarrow> Some (Node i t c None)
           | Some (JArr xs) \<Rightarrow>
               map_option (\<lambda>ks. Node i t c (Some ks)) (those (map node_of_json xs))
           | Some _ \<Rightarrow> None)
      | _ \<Rightarrow> None)"
| "node_of_json JNull = None"
| "node_of_json (JBool b) = None"
| "node_of_json (JNum x) = None"
| "node_of_json (JStr s) = None"
| "node_of_json (JArr xs) = None"
  by pat_completeness auto
termination
proof -
  have smaller: "size z < Suc (size_list (size_prod (\<lambda>_. 0) size) kvs)"
    if m: "map_of kvs k = Some (JArr xs)" and z: "z \<in> set xs"
    for z :: json and xs and kvs :: "(jstring \<times> json) list" and k
  proof -
    from z have "size z < Suc (size_list size xs)"
      by (induction xs) auto
    moreover from m have "size (JArr xs) \<le> size_list (size_prod (\<lambda>_. 0) size) kvs"
      by (induction kvs) (auto split: if_splits)
    ultimately show ?thesis by simp
  qed
  show ?thesis
    by (relation "measure size") (auto intro: smaller)
qed

definition nodes_of_json :: "json list \<Rightarrow> node list option" where
  "nodes_of_json xs = those (map node_of_json xs)"

section \<open>The description codec\<close>

text \<open>What \<^verbatim>\<open>parseDesc\<close> returns: \<^verbatim>\<open>{ text, subtasks }\<close>, both as parsed.\<close>

record decoded =
  desc_text :: json
  desc_subtasks :: "json list"

text \<open>
  \<^verbatim>\<open>parseDesc\<close>.  \<open>None\<close> is a \<^verbatim>\<open>null\<close> description.  The \<^verbatim>\<open>catch\<close> and the failed
  test \<^verbatim>\<open>d && Array.isArray(d.subtasks)\<close> both fall through to the last line.
\<close>

definition parseDesc :: "jstring option \<Rightarrow> decoded" where
  "parseDesc desc =
     (case desc of
        None \<Rightarrow> \<lparr>desc_text = JStr [], desc_subtasks = []\<rparr>
      | Some s \<Rightarrow>
          if s = [] then \<lparr>desc_text = JStr [], desc_subtasks = []\<rparr>
          else
            (case json_parse s of
               None \<Rightarrow> \<lparr>desc_text = JStr s, desc_subtasks = []\<rparr>
             | Some d \<Rightarrow>
                 if js_truthy d then
                   (case get_prop d (js ''subtasks'') of
                      Some (JArr xs) \<Rightarrow>
                        \<lparr>desc_text =
                           (case get_prop d (js ''text'') of
                              None \<Rightarrow> JStr []
                            | Some v \<Rightarrow> if js_truthy v then v else JStr []),
                         desc_subtasks = xs\<rparr>
                    | _ \<Rightarrow> \<lparr>desc_text = JStr s, desc_subtasks = []\<rparr>)
                 else \<lparr>desc_text = JStr s, desc_subtasks = []\<rparr>))"

text \<open>\<^verbatim>\<open>encodeDesc\<close>; \<open>None\<close> is \<^verbatim>\<open>null\<close>, and \<^verbatim>\<open>text || ''\<close> is \<^verbatim>\<open>text\<close> for a string.\<close>

definition encodeDesc :: "jstring \<Rightarrow> node list \<Rightarrow> jstring option" where
  "encodeDesc t subs =
     (if subs = [] \<and> t = [] then None
      else if subs = [] then Some t
      else Some (stringify_envelope t subs))"

text \<open>
  The test of \<^verbatim>\<open>parseDesc\<close> on a string: it parses, and the value passes
  \<^verbatim>\<open>d && Array.isArray(d.subtasks)\<close>.
\<close>

definition reads_as_envelope :: "jstring \<Rightarrow> bool" where
  "reads_as_envelope t =
     (case json_parse t of
        None \<Rightarrow> False
      | Some d \<Rightarrow>
          js_truthy d \<and>
          (case get_prop d (js ''subtasks'') of Some (JArr xs) \<Rightarrow> True | _ \<Rightarrow> False))"

section \<open>Double arithmetic and progress\<close>

text \<open>
  JavaScript numbers are IEEE 754 doubles.  A double is modelled by the rational it
  denotes; \<open>fl\<close> rounds a rational to the nearest double, ties to even, as division and
  multiplication do.  \<open>ilog2 x\<close> is the exponent \<open>e\<close> with \<open>2\<^sup>e \<le> x < 2\<^sup>e\<^sup>+\<^sup>1\<close>, and a
  double with that exponent is a multiple of \<open>2\<^sup>e\<^sup>-\<^sup>5\<^sup>2\<close>.  Subnormal results and overflow
  are not modelled: the quotients and products below lie between \<open>2\<^sup>-\<^sup>1\<^sup>0\<^sup>2\<^sup>2\<close> and
  \<open>2\<^sup>1\<^sup>0\<^sup>2\<^sup>4\<close> or are zero.
\<close>

definition rne :: "rat \<Rightarrow> int" where
  "rne x =
     (let f = \<lfloor>x\<rfloor>; d = x - of_int f
      in if d < 1 / 2 then f
         else if 1 / 2 < d then f + 1
         else if even f then f else f + 1)"

definition ilog2 :: "rat \<Rightarrow> int" where
  "ilog2 x =
     (let (a, b) = quotient_of x; e = bitlen a - bitlen b
      in if 2 powi e \<le> x then e else e - 1)"

definition fl :: "rat \<Rightarrow> rat" where
  "fl x =
     (if x = 0 then 0
      else (let u = 2 powi (ilog2 \<bar>x\<bar> - 52)
            in sgn x * of_int (rne (\<bar>x\<bar> / u)) * u))"

text \<open>\<^verbatim>\<open>Math.round\<close>: the nearest integer, a tie going up.\<close>

definition Math_round :: "rat \<Rightarrow> int" where
  "Math_round x = \<lfloor>x + 1 / 2\<rfloor>"

record task =
  description :: "jstring option"
  status :: jstring

text \<open>
  \<^verbatim>\<open>taskProg\<close>.  The counts are integers and exact; the quotient is rounded to a
  double, and so is its product with 100.  The result is \<open>None\<close> when the stored
  envelope does not hold subtask nodes of the data model, where the helpers of
  \<^verbatim>\<open>Goals.jsx\<close> have no typed reading.
\<close>

definition taskProg :: "task \<Rightarrow> int option" where
  "taskProg tk =
     (case nodes_of_json (desc_subtasks (parseDesc (description tk))) of
        None \<Rightarrow> None
      | Some subtasks \<Rightarrow>
          (let total = countAllSubs subtasks
           in if 0 < total then
                Some (Math_round
                  (fl (fl (of_nat (countCompletedSubs subtasks) / of_nat total) * 100)))
              else Some (if status tk = js ''COMPLETED'' then 100
                         else if status tk = js ''IN_PROGRESS'' then 50 else 0)))"

record milestone =
  tasks :: "task list option"

record goal =
  milestones :: "milestone list option"

text \<open>\<^verbatim>\<open>goal?.milestones?.flatMap(m => m.tasks || []) || []\<close>; \<open>None\<close> is no goal.\<close>

definition allTasks :: "goal option \<Rightarrow> task list" where
  "allTasks g =
     (case g of
        None \<Rightarrow> []
      | Some gl \<Rightarrow>
          (case milestones gl of
             None \<Rightarrow> []
           | Some ms \<Rightarrow>
               concat (map (\<lambda>m. case tasks m of None \<Rightarrow> [] | Some ts \<Rightarrow> ts) ms)))"

text \<open>
  \<^verbatim>\<open>goalProg\<close>: the \<^verbatim>\<open>reduce\<close> adds the progress of each task, starting from 0; the
  sum is divided by the number of tasks (a double division) and rounded.
\<close>

fun sum_progress :: "int \<Rightarrow> task list \<Rightarrow> int option" where
  "sum_progress s [] = Some s"
| "sum_progress s (tk # tks) =
     (case taskProg tk of None \<Rightarrow> None | Some p \<Rightarrow> sum_progress (s + p) tks)"

definition goalProg :: "goal option \<Rightarrow> int option" where
  "goalProg g =
     (let t = allTasks g
      in if t \<noteq> [] then
           (case sum_progress 0 t of
              None \<Rightarrow> None
            | Some s \<Rightarrow> Some (Math_round (fl (of_int s / of_nat (length t)))))
         else Some 0)"

section \<open>Extracting the schedule\<close>

text \<open>
  \<^verbatim>\<open>finalizePlan\<close> of the planner's controller.  The chat capability
  \<^verbatim>\<open>chatWithOllama(messages, systemPrompt, true)\<close> is a parameter: it returns the
  content (\<open>Inr\<close>) or throws an error with a message (\<open>Inl\<close>).
\<close>

datatype message = Message (role: jstring) (content: jstring)

datatype response = Response (status_code: nat) (body: json)

definition systemPrompt :: jstring where
  "systemPrompt =
     js ''Based on the planning conversation, extract the final agreed-upon daily schedule for tomorrow.'' @
     [0x0A] @
     [0x0A] @
     js ''Return ONLY a JSON array with the following structure (no other text, no markdown code blocks):'' @
     [0x0A] @
     js ''['' @
     [0x0A] @
     js ''  {'' @
     [0x0A] @
     js ''    \"title\": \"Task title\",'' @
     [0x0A] @
     js ''    \"description\": \"Brief actionable description of what to do during this block\",'' @
     [0x0A] @
     js ''    \"startTime\": \"09:00\",'' @
     [0x0A] @
     js ''    \"endTime\": \"10:30\",'' @
     [0x0A] @
     js ''    \"estimatedMins\": 90'' @
     [0x0A] @
     js ''  }'' @
     [0x0A] @
     js '']'' @
     [0x0A] @
     [0x0A] @
     js ''Rules:'' @
     [0x0A] @
     js ''- \"title\" is a short task name'' @
     [0x0A] @
     js ''- \"description\" is a 1-2 sentence actionable instruction for the task'' @
     [0x0A] @
     js ''- \"startTime\" and \"endTime\" are in 24-hour \"HH:MM\" format'' @
     [0x0A] @
     js ''- \"estimatedMins\" is the duration in minutes as an integer'' @
     [0x0A] @
     js ''- Order tasks by startTime'' @
     [0x0A] @
     js ''- Include breaks if they were discussed''"

text \<open>
  \<^verbatim>\<open>content.match(/\[[\s\S]*\]/)\<close>: the match starts at the first \<^verbatim>\<open>[\<close>, and the
  greedy \<^verbatim>\<open>[\s\S]*\<close>, which matches every character, gives back characters until the
  next one is \<^verbatim>\<open>]\<close>, so that the match ends at the last \<^verbatim>\<open>]\<close> after that bracket.
  With no \<^verbatim>\<open>]\<close> after the first \<^verbatim>\<open>[\<close> there is none after a later one either.
\<close>

definition bracket_match :: "jstring \<Rightarrow> jstring option" where
  "bracket_match s =
     (case dropWhile (\<lambda>c. c \<noteq> 0x5B) s of
        [] \<Rightarrow> None
      | c # rest \<Rightarrow>
          if 0x5D \<in> set rest
            then Some (c # rev (dropWhile (\<lambda>c. c \<noteq> 0x5D) (rev rest)))
          else None)"

text \<open>The inner \<^verbatim>\<open>try\<close> block: what is thrown inside it.\<close>

datatype parse_error = NoJsonArray | JsonSyntaxError

definition extractSchedule :: "jstring \<Rightarrow> parse_error + json" where
  "extractSchedule c =
     (case bracket_match c of
        None \<Rightarrow> Inl NoJsonArray
      | Some m \<Rightarrow>
          (case json_parse m of
             None \<Rightarrow> Inl JsonSyntaxError
           | Some schedule \<Rightarrow> Inr schedule))"

definition finalizePlan ::
  "(message list \<Rightarrow> jstring \<Rightarrow> bool \<Rightarrow> jstring + jstring) \<Rightarrow> message list option \<Rightarrow> response"
  where
  "finalizePlan chatWithOllama conversationHistory =
     (case conversationHistory of
        None \<Rightarrow>
          Response 400 (JObj [(js ''error'', JStr (js ''Conversation history is required''))])
      | Some history \<Rightarrow>
          if history = [] then
            Response 400 (JObj [(js ''error'', JStr (js ''Conversation history is required''))])
          else
            (case chatWithOllama
                    (history @ [Message (js ''user'')
                       (js ''Please extract the final daily schedule we agreed upon as a JSON array only, no other text.'')])
                    systemPrompt True of
               Inl msg \<Rightarrow>
                 Response 500 (JObj [(js ''error'', JStr (js ''Failed to finalize schedule'')),
                                     (js ''details'', JStr msg)])
             | Inr c \<Rightarrow>
                 (case extractSchedule c of
                    Inl e \<Rightarrow>
                      Response 500
                        (JObj [(js ''error'',
                                JStr (js ''Failed to parse schedule from AI response''))])
                  | Inr schedule \<Rightarrow> Response 200 (JObj [(js ''schedule'', schedule)]))))"

text \<open>
  For comparison, the bracketed substring as the specification words it, the first
  contiguous \<^verbatim>\<open>[...]\<close>: from the first \<^verbatim>\<open>[\<close> to the first \<^verbatim>\<open>]\<close> after it.
\<close>

definition spec_first_bracketed :: "jstring \<Rightarrow> jstring option" where
  "spec_first_bracketed s =
     (case dropWhile (\<lambda>c. c \<noteq> 0x5B) s of
        [] \<Rightarrow> None
      | c # rest \<Rightarrow>
          if 0x5D \<in> set rest
            then Some (c # takeWhile (\<lambda>c. c \<noteq> 0x5D) rest @ [0x5D])
          else None)"

section \<open>Properties of the tree operations\<close>

subsection \<open>Basic facts\<close>

lemma flattenNode_self: "s \<in> set (flattenNode s)"
  by (cases s) simp

lemma flattenNode_Some:
  "flattenNode (Node j t c (Some ks)) = Node j t c (Some ks) # flattenSubs ks"
  by (cases ks) simp_all

lemma sing_append:
  "xs @ ys = [n] \<longleftrightarrow> (xs = [n] \<and> ys = []) \<or> (xs = [] \<and> ys = [n])"
  by (cases xs) auto

subsection \<open>An id that occurs nowhere\<close>

lemma toggle_absent:
  "\<forall>n\<in>set (flattenSubs subs). node_id n \<noteq> i \<Longrightarrow> toggleSubById subs i = subs"
  "\<forall>n\<in>set (flattenNode s). node_id n \<noteq> i \<Longrightarrow> toggleNode s i = s"
  by (induction subs and s rule: flattenSubs_flattenNode.induct)
     (auto split: option.splits list.splits)

lemma add_absent:
  "\<forall>n\<in>set (flattenSubs subs). node_id n \<noteq> i \<Longrightarrow> addChildSub subs i c = subs"
  "\<forall>n\<in>set (flattenNode s). node_id n \<noteq> i \<Longrightarrow> addChildNode s i c = s"
  by (induction subs and s rule: flattenSubs_flattenNode.induct)
     (auto split: option.splits list.splits)

lemma remove_absent:
  "\<forall>n\<in>set (flattenSubs subs). node_id n \<noteq> i \<Longrightarrow> removeSubById subs i = subs"
  "\<forall>n\<in>set (flattenNode s). node_id n \<noteq> i \<Longrightarrow> removeNode s i = s"
  by (induction subs and s rule: flattenSubs_flattenNode.induct)
     (auto split: option.splits list.splits simp: flattenNode_self)

text \<open>
  Claim C10.  When no node of the tree has the given id, \<^verbatim>\<open>addChildSub\<close>,
  \<^verbatim>\<open>removeSubById\<close> and \<^verbatim>\<open>toggleSubById\<close> each return their input: the result is
  equal to the tree that went in.  The three functions are total and have no error result,
  so there is no not-found signal.
\<close>

theorem absent_id_noop:
  assumes "i \<notin> node_id ` set (flattenSubs subs)"
  shows "addChildSub subs i child = subs \<and> removeSubById subs i = subs
           \<and> toggleSubById subs i = subs"
proof -
  from assms have "\<forall>n\<in>set (flattenSubs subs). node_id n \<noteq> i" by auto
  then show ?thesis by (simp add: add_absent remove_absent toggle_absent)
qed

text \<open>
  The scenario of the specification: a child added under the parent id \<open>zzz\<close>, which the
  tree \<^verbatim>\<open>[{id:"a",children:[]}]\<close> does not contain.  The node is given a title and a
  flag, which the scenario leaves out.
\<close>

theorem absent_id_noop_witness:
  "js ''zzz'' \<notin> node_id ` set (flattenSubs [Node (js ''a'') (js ''A'') False (Some [])])
   \<and> addChildSub [Node (js ''a'') (js ''A'') False (Some [])] (js ''zzz'')
         (Node (js ''n'') (js ''new'') False (Some []))
       = [Node (js ''a'') (js ''A'') False (Some [])]
   \<and> removeSubById [Node (js ''a'') (js ''A'') False (Some [])] (js ''zzz'')
       = [Node (js ''a'') (js ''A'') False (Some [])]
   \<and> toggleSubById [Node (js ''a'') (js ''A'') False (Some [])] (js ''zzz'')
       = [Node (js ''a'') (js ''A'') False (Some [])]"
proof -
  have h: "js ''zzz'' \<notin> node_id ` set (flattenSubs [Node (js ''a'') (js ''A'') False (Some [])])"
    by (simp add: js_def)
  from absent_id_noop [OF h, of "Node (js ''n'') (js ''new'') False (Some [])"] h
  show ?thesis by blast
qed

subsection \<open>Toggling\<close>

lemma toggle_twice:
  "toggleSubById (toggleSubById subs i) i = subs"
  "toggleNode (toggleNode s i) i = s"
  by (induction subs and s rule: flattenSubs_flattenNode.induct)
     (auto split: option.splits list.splits)

text \<open>
  Claim C8.  Toggling the same id twice gives the tree back, for every tree and every id;
  when the id occurs nowhere in the tree, each single application already returns the
  tree unchanged.
\<close>

theorem toggle_involution:
  "toggleSubById (toggleSubById subs i) i = subs
   \<and> (i \<notin> node_id ` set (flattenSubs subs) \<longrightarrow> toggleSubById subs i = subs)"
proof -
  have "toggleSubById subs i = subs" if "i \<notin> node_id ` set (flattenSubs subs)"
  proof -
    from that have "\<forall>n\<in>set (flattenSubs subs). node_id n \<noteq> i" by auto
    then show ?thesis by (rule toggle_absent)
  qed
  then show ?thesis by (simp add: toggle_twice)
qed

theorem toggle_involution_witness:
  "toggleSubById (toggleSubById
       [Node (js ''a'') (js ''A'') True (Some [Node (js ''c'') (js ''C'') False None]),
        Node (js ''b'') (js ''B'') True None] (js ''c'')) (js ''c'')
     = [Node (js ''a'') (js ''A'') True (Some [Node (js ''c'') (js ''C'') False None]),
        Node (js ''b'') (js ''B'') True None]
   \<and> js ''zzz'' \<notin> node_id ` set (flattenSubs
           [Node (js ''a'') (js ''A'') True (Some [Node (js ''c'') (js ''C'') False None]),
            Node (js ''b'') (js ''B'') True None])
   \<and> toggleSubById
       [Node (js ''a'') (js ''A'') True (Some [Node (js ''c'') (js ''C'') False None]),
        Node (js ''b'') (js ''B'') True None] (js ''zzz'')
     = [Node (js ''a'') (js ''A'') True (Some [Node (js ''c'') (js ''C'') False None]),
        Node (js ''b'') (js ''B'') True None]"
proof -
  let ?T = "[Node (js ''a'') (js ''A'') True (Some [Node (js ''c'') (js ''C'') False None]),
             Node (js ''b'') (js ''B'') True None]"
  have h: "js ''zzz'' \<notin> node_id ` set (flattenSubs ?T)"
    by (simp add: js_def)
  from toggle_involution [of ?T "js ''c''"] toggle_involution [of ?T "js ''zzz''"] h
  show ?thesis by blast
qed

lemma toggle_length:
  "length (flattenSubs (toggleSubById subs i)) = length (flattenSubs subs)"
  "length (flattenNode (toggleNode s i)) = length (flattenNode s)"
  by (induction subs and s rule: flattenSubs_flattenNode.induct)
     (auto split: option.splits list.splits)

lemma toggle_one_completed:
  "filter (\<lambda>n. node_id n = i) (flattenSubs subs) = [m] \<Longrightarrow> \<not> completed m \<Longrightarrow>
     length (filter completed (flattenSubs (toggleSubById subs i))) =
       Suc (length (filter completed (flattenSubs subs)))"
  "filter (\<lambda>n. node_id n = i) (flattenNode s) = [m] \<Longrightarrow> \<not> completed m \<Longrightarrow>
     length (filter completed (flattenNode (toggleNode s i))) =
       Suc (length (filter completed (flattenNode s)))"
proof (induction subs and s rule: flattenSubs_flattenNode.induct)
  case 1
  then show ?case by simp
next
  case (2 s subs)
  from 2(3) consider
      (here) "filter (\<lambda>n. node_id n = i) (flattenNode s) = [m]"
             "filter (\<lambda>n. node_id n = i) (flattenSubs subs) = []"
    | (later) "filter (\<lambda>n. node_id n = i) (flattenNode s) = []"
              "filter (\<lambda>n. node_id n = i) (flattenSubs subs) = [m]"
    by (auto simp: sing_append)
  then show ?case
  proof cases
    case here
    then have "toggleSubById subs i = subs"
      by (intro toggle_absent) (simp add: filter_empty_conv)
    with here 2 show ?thesis by simp
  next
    case later
    then have "toggleNode s i = s"
      by (intro toggle_absent) (simp add: filter_empty_conv)
    with later 2 show ?thesis by simp
  qed
next
  case (3 j t c ch)
  then show ?case
    by (auto split: option.splits list.splits if_splits)
qed

text \<open>
  Claim C6.  Let the id identify a node of the tree, that is, let exactly one node \<open>m\<close> of
  the pre-order enumeration carry it, and let that node be incomplete.  Then toggling the
  id raises \<^verbatim>\<open>countCompletedSubs\<close> by exactly one and leaves \<^verbatim>\<open>countAllSubs\<close> as it
  was.
\<close>

theorem toggle_incomplete_counts:
  assumes "filter (\<lambda>n. node_id n = i) (flattenSubs subs) = [m]"
    and "\<not> completed m"
  shows "countCompletedSubs (toggleSubById subs i) = countCompletedSubs subs + 1
           \<and> countAllSubs (toggleSubById subs i) = countAllSubs subs"
  using assms
  by (simp add: countCompletedSubs_def countAllSubs_def toggle_one_completed toggle_length)

theorem toggle_incomplete_counts_witness:
  "filter (\<lambda>n. node_id n = js ''c'')
      (flattenSubs
        [Node (js ''a'') (js ''A'') True (Some [Node (js ''c'') (js ''C'') False None]),
         Node (js ''b'') (js ''B'') True None])
     = [Node (js ''c'') (js ''C'') False None]
   \<and> \<not> completed (Node (js ''c'') (js ''C'') False None)
   \<and> countCompletedSubs (toggleSubById
        [Node (js ''a'') (js ''A'') True (Some [Node (js ''c'') (js ''C'') False None]),
         Node (js ''b'') (js ''B'') True None] (js ''c''))
     = countCompletedSubs
        [Node (js ''a'') (js ''A'') True (Some [Node (js ''c'') (js ''C'') False None]),
         Node (js ''b'') (js ''B'') True None] + 1
   \<and> countAllSubs (toggleSubById
        [Node (js ''a'') (js ''A'') True (Some [Node (js ''c'') (js ''C'') False None]),
         Node (js ''b'') (js ''B'') True None] (js ''c''))
     = countAllSubs
        [Node (js ''a'') (js ''A'') True (Some [Node (js ''c'') (js ''C'') False None]),
         Node (js ''b'') (js ''B'') True None]"
proof -
  let ?T = "[Node (js ''a'') (js ''A'') True (Some [Node (js ''c'') (js ''C'') False None]),
             Node (js ''b'') (js ''B'') True None]"
  have h1: "filter (\<lambda>n. node_id n = js ''c'') (flattenSubs ?T)
              = [Node (js ''c'') (js ''C'') False None]"
    by (simp add: js_def)
  have h2: "\<not> completed (Node (js ''c'') (js ''C'') False None)"
    by simp
  from toggle_incomplete_counts [OF h1 h2] h1 h2 show ?thesis by blast
qed

subsection \<open>Removing\<close>

lemma remove_one_total:
  "filter (\<lambda>n. node_id n = i) (flattenSubs subs) = [m] \<Longrightarrow>
     length (flattenSubs (removeSubById subs i)) + length (flattenNode m) =
       length (flattenSubs subs)"
  "filter (\<lambda>n. node_id n = i) (flattenNode s) = [m] \<Longrightarrow> node_id s \<noteq> i \<Longrightarrow>
     length (flattenNode (removeNode s i)) + length (flattenNode m) =
       length (flattenNode s)"
proof (induction subs and s rule: flattenSubs_flattenNode.induct)
  case 1
  then show ?case by simp
next
  case (2 s subs)
  from 2(3) consider
      (here) "filter (\<lambda>n. node_id n = i) (flattenNode s) = [m]"
             "filter (\<lambda>n. node_id n = i) (flattenSubs subs) = []"
    | (later) "filter (\<lambda>n. node_id n = i) (flattenNode s) = []"
              "filter (\<lambda>n. node_id n = i) (flattenSubs subs) = [m]"
    by (auto simp: sing_append)
  then show ?case
  proof cases
    case here
    then have rest: "removeSubById subs i = subs"
      by (intro remove_absent) (simp add: filter_empty_conv)
    show ?thesis
    proof (cases "node_id s = i")
      case True
      with here(1) have "s = m" by (cases s) (auto split: if_splits)
      with True rest show ?thesis by simp
    next
      case False
      with here 2 rest show ?thesis by simp
    qed
  next
    case later
    then have "node_id s \<noteq> i" "removeNode s i = s"
      using flattenNode_self [of s] by (auto simp: filter_empty_conv intro: remove_absent)
    with later 2 show ?thesis by simp
  qed
next
  case (3 j t c ch)
  then show ?case
    by (auto split: option.splits list.splits if_splits)
qed

text \<open>
  Claim C7.  Let the id identify a node \<open>m\<close> of the tree (exactly one node of the
  pre-order enumeration carries it), and let \<open>k = countAllSubs [m]\<close> be the size of the
  subtree of \<open>m\<close>, the node with all its descendants.  Then \<^verbatim>\<open>removeSubById\<close> returns
  a tree with exactly \<open>k\<close> nodes fewer: the whole subtree goes.
\<close>

theorem remove_subtree_size:
  assumes "filter (\<lambda>n. node_id n = i) (flattenSubs subs) = [m]"
  shows "countAllSubs (removeSubById subs i) = countAllSubs subs - countAllSubs [m]
           \<and> countAllSubs [m] \<le> countAllSubs subs"
  using remove_one_total(1) [OF assms] by (simp add: countAllSubs_def)

theorem remove_subtree_size_witness:
  "filter (\<lambda>n. node_id n = js ''a'')
      (flattenSubs
        [Node (js ''a'') (js ''A'') True (Some [Node (js ''c'') (js ''C'') False None]),
         Node (js ''b'') (js ''B'') True None])
     = [Node (js ''a'') (js ''A'') True (Some [Node (js ''c'') (js ''C'') False None])]
   \<and> countAllSubs (removeSubById
        [Node (js ''a'') (js ''A'') True (Some [Node (js ''c'') (js ''C'') False None]),
         Node (js ''b'') (js ''B'') True None] (js ''a'')) = 3 - 2
   \<and> countAllSubs
        [Node (js ''a'') (js ''A'') True (Some [Node (js ''c'') (js ''C'') False None])] = 2
   \<and> countAllSubs
        [Node (js ''a'') (js ''A'') True (Some [Node (js ''c'') (js ''C'') False None]),
         Node (js ''b'') (js ''B'') True None] = 3"
proof -
  let ?m = "Node (js ''a'') (js ''A'') True (Some [Node (js ''c'') (js ''C'') False None])"
  let ?T = "[?m, Node (js ''b'') (js ''B'') True None]"
  have h: "filter (\<lambda>n. node_id n = js ''a'') (flattenSubs ?T) = [?m]"
    by (simp add: js_def)
  have k: "countAllSubs [?m] = 2" and t: "countAllSubs ?T = 3"
    by (simp_all add: countAllSubs_def)
  from remove_subtree_size [OF h] h k t show ?thesis by simp
qed

subsection \<open>An id that occurs more than once\<close>

lemma toggle_hits:
  "hits (toggleSubById subs i) i = map flipped (hits subs i)"
  "hitsNode (toggleNode s i) i = map flipped (hitsNode s i)"
  by (induction subs and s rule: flattenSubs_flattenNode.induct)
     (auto simp: flipped_def split: option.splits list.splits)

lemma toggle_others:
  "others (toggleSubById subs i) i = others subs i"
  "othersNode (toggleNode s i) i = othersNode s i"
  by (induction subs and s rule: flattenSubs_flattenNode.induct)
     (auto split: option.splits list.splits)

lemma add_hits:
  "hits (addChildSub subs i c) i = map (extended c) (hits subs i)"
  "hitsNode (addChildNode s i c) i = map (extended c) (hitsNode s i)"
  by (induction subs and s rule: flattenSubs_flattenNode.induct)
     (auto simp: extended_def split: option.splits list.splits)

lemma add_others:
  "others (addChildSub subs i c) i = others subs i"
  "othersNode (addChildNode s i c) i = othersNode s i"
  by (induction subs and s rule: flattenSubs_flattenNode.induct)
     (auto split: option.splits list.splits)

lemma remove_others:
  "others (removeSubById subs i) i = others subs i"
  "node_id s \<noteq> i \<Longrightarrow> othersNode (removeNode s i) i = othersNode s i"
  "node_id s = i \<Longrightarrow> othersNode s i = []"
  by (induction subs and s rule: flattenSubs_flattenNode.induct)
     (auto split: option.splits list.splits)

lemma remove_no_id:
  "i \<notin> node_id ` set (flattenSubs (removeSubById subs i))"
  "node_id s \<noteq> i \<Longrightarrow> i \<notin> node_id ` set (flattenNode (removeNode s i))"
proof (induction subs and s rule: flattenSubs_flattenNode.induct)
  case (3 j t c ch)
  show ?case
  proof (cases ch)
    case None
    with 3(2) show ?thesis by simp
  next
    case (Some ks)
    show ?thesis
    proof (cases ks)
      case Nil
      with Some 3(2) show ?thesis by simp
    next
      case (Cons k ks')
      with Some 3 show ?thesis
        by (simp add: flattenNode_Some del: flattenNode.simps removeSubById.simps)
    qed
  qed
qed auto

lemma hits_empty:
  "hits subs i = [] \<longleftrightarrow> i \<notin> node_id ` set (flattenSubs subs)"
  "hitsNode s i = [] \<longleftrightarrow> i \<notin> node_id ` set (flattenNode s)"
proof (induction subs and s rule: flattenSubs_flattenNode.induct)
  case (3 j t c ch)
  show ?case
  proof (cases ch)
    case None
    then show ?thesis by auto
  next
    case (Some ks)
    show ?thesis
    proof (cases ks)
      case Nil
      with Some show ?thesis by auto
    next
      case (Cons k ks')
      with Some 3 show ?thesis by auto
    qed
  qed
qed auto

lemma hits_hd:
  "hits subs i \<noteq> [] \<Longrightarrow>
     hd (hits subs i) = hd (filter (\<lambda>n. node_id n = i) (flattenSubs subs))"
  "hitsNode s i \<noteq> [] \<Longrightarrow>
     hd (hitsNode s i) = hd (filter (\<lambda>n. node_id n = i) (flattenNode s))"
proof (induction subs and s rule: flattenSubs_flattenNode.induct)
  case 1
  then show ?case by simp
next
  case (2 s subs)
  show ?case
  proof (cases "hitsNode s i = []")
    case True
    then have "filter (\<lambda>n. node_id n = i) (flattenNode s) = []"
      by (auto simp: hits_empty filter_empty_conv)
    with True 2 show ?thesis by simp
  next
    case False
    then have "filter (\<lambda>n. node_id n = i) (flattenNode s) \<noteq> []"
      by (auto simp: hits_empty filter_empty_conv)
    with False 2 show ?thesis by simp
  qed
next
  case (3 j t c ch)
  show ?case
  proof (cases ch)
    case None
    with 3(2) show ?thesis by (auto split: if_splits)
  next
    case (Some ks)
    show ?thesis
    proof (cases ks)
      case Nil
      with Some 3(2) show ?thesis by (auto split: if_splits)
    next
      case (Cons k ks')
      with Some 3 show ?thesis by (auto split: if_splits)
    qed
  qed
qed

lemma remove_after_toggle:
  "removeSubById (toggleSubById subs i) i = removeSubById subs i"
  "node_id s \<noteq> i \<Longrightarrow> removeNode (toggleNode s i) i = removeNode s i"
  "node_id (toggleNode s i) = node_id s"
  by (induction subs and s rule: flattenSubs_flattenNode.induct)
     (auto split: option.splits list.splits)

lemma remove_after_add:
  "removeSubById (addChildSub subs i c) i = removeSubById subs i"
  "node_id s \<noteq> i \<Longrightarrow> removeNode (addChildNode s i c) i = removeNode s i"
  "node_id (addChildNode s i c) = node_id s"
  by (induction subs and s rule: flattenSubs_flattenNode.induct)
     (auto split: option.splits list.splits)

text \<open>
  Claim C2, as stated, fails.  In a list of two siblings with the same id the second one
  is a later match in pre-order, and none of the three operations leaves it alone:
  toggling flips it, adding a child extends it, removing deletes it.
\<close>

theorem first_match_only_counterexample:
  "tl (toggleSubById [Node (js ''a'') (js ''x'') False None,
                      Node (js ''a'') (js ''y'') False None] (js ''a''))
     \<noteq> [Node (js ''a'') (js ''y'') False None]
   \<and> tl (addChildSub [Node (js ''a'') (js ''x'') False None,
                      Node (js ''a'') (js ''y'') False None] (js ''a'')
            (Node (js ''n'') (js ''new'') False (Some [])))
     \<noteq> [Node (js ''a'') (js ''y'') False None]
   \<and> removeSubById [Node (js ''a'') (js ''x'') False None,
                    Node (js ''a'') (js ''y'') False None] (js ''a'')
     \<noteq> [Node (js ''a'') (js ''y'') False None]"
  by simp

text \<open>
  Claim C2, amended.  A by-id operation is not limited to the first pre-order match.
  \<^verbatim>\<open>toggleSubById\<close> flips, and \<^verbatim>\<open>addChildSub\<close> appends the child to, every node with
  the id that has no ancestor with the id; the first of these is the first pre-order
  match.  Nodes below such a node stay as they are (they are part of the node that
  \<open>flipped\<close> and \<open>extended\<close> keep), and so does every other node: what is left after
  removing the id is the same tree before and after the operation.  \<^verbatim>\<open>removeSubById\<close>
  removes every node with the id, so that none is left, and keeps every node that neither
  has the id nor lies below a node that has it.
\<close>

theorem by_id_reaches_every_hit:
  "hits (toggleSubById subs i) i = map flipped (hits subs i)
   \<and> others (toggleSubById subs i) i = others subs i
   \<and> removeSubById (toggleSubById subs i) i = removeSubById subs i
   \<and> hits (addChildSub subs i child) i = map (extended child) (hits subs i)
   \<and> others (addChildSub subs i child) i = others subs i
   \<and> removeSubById (addChildSub subs i child) i = removeSubById subs i
   \<and> i \<notin> node_id ` set (flattenSubs (removeSubById subs i))
   \<and> others (removeSubById subs i) i = others subs i
   \<and> (hits subs i \<noteq> [] \<longrightarrow>
        hd (hits subs i) = hd (filter (\<lambda>n. node_id n = i) (flattenSubs subs)))"
  by (simp add: toggle_hits toggle_others add_hits add_others remove_no_id remove_others
      hits_hd remove_after_toggle remove_after_add)

theorem by_id_reaches_every_hit_witness:
  "hits [Node (js ''a'') (js ''x'') False None, Node (js ''a'') (js ''y'') False None]
      (js ''a'')
     = [Node (js ''a'') (js ''x'') False None, Node (js ''a'') (js ''y'') False None]
   \<and> hits (toggleSubById [Node (js ''a'') (js ''x'') False None,
                          Node (js ''a'') (js ''y'') False None] (js ''a'')) (js ''a'')
     = [Node (js ''a'') (js ''x'') True None, Node (js ''a'') (js ''y'') True None]
   \<and> hd (hits [Node (js ''a'') (js ''x'') False None,
               Node (js ''a'') (js ''y'') False None] (js ''a''))
     = hd (filter (\<lambda>n. node_id n = js ''a'')
            (flattenSubs [Node (js ''a'') (js ''x'') False None,
                          Node (js ''a'') (js ''y'') False None]))"
proof -
  let ?T = "[Node (js ''a'') (js ''x'') False None, Node (js ''a'') (js ''y'') False None]"
  have h: "hits ?T (js ''a'') = ?T"
    by simp
  from by_id_reaches_every_hit [of ?T "js ''a''"] h show ?thesis
    by (simp add: flipped_def)
qed

section \<open>Properties of the parser\<close>

subsection \<open>Every parser consumes input\<close>

text \<open>
  A successful parse returns a strictly shorter rest.  So the comparisons of lengths in
  \<open>parse_elems\<close> and \<open>parse_members\<close> never reject an input: both functions satisfy
  their equations without them.
\<close>

lemma skip_ws_length: "length (skip_ws s) \<le> length s"
  unfolding skip_ws_def by (rule length_dropWhile_le)

lemma skip_ws_Cons_length: "skip_ws s = c # cs \<Longrightarrow> length cs < length s"
  using skip_ws_length [of s] by simp

lemma parse_string_chars_consumes:
  "parse_string_chars s = Some (str, r) \<Longrightarrow> length r < length s"
proof (induction s arbitrary: str r rule: parse_string_chars.induct)
  case 1
  then show ?case by simp
next
  case (2 c cs)
  then show ?case
    by (fastforce split: if_splits option.splits list.splits prod.splits)
qed

lemma parse_digits1_consumes: "parse_digits1 s = Some (n, r) \<Longrightarrow> length r \<le> length s"
  by (auto simp: parse_digits1_def Let_def length_dropWhile_le split: if_splits)

lemma parse_frac_consumes: "parse_frac s = Some (fr, r) \<Longrightarrow> length r \<le> length s"
  by (auto simp: parse_frac_def Let_def split: if_splits list.splits
      intro: le_SucI length_dropWhile_le)

lemma parse_exp_consumes: "parse_exp s = Some (e, r) \<Longrightarrow> length r \<le> length s"
  by (auto simp: parse_exp_def split: if_splits list.splits
      dest!: parse_digits1_consumes)

lemma parse_unsigned_consumes: "parse_unsigned s = Some (x, r) \<Longrightarrow> length r < length s"
proof -
  assume a: "parse_unsigned s = Some (x, r)"
  then obtain c cs where s: "s = c # cs" and d: "is_digit c"
    by (cases s) (auto simp: parse_unsigned_def split: if_splits)
  let ?s1 = "if c = 0x30 then cs else dropWhile is_digit s"
  have l1: "length ?s1 < length s"
  proof (cases "c = 0x30")
    case True
    with s show ?thesis by simp
  next
    case False
    have "length (dropWhile is_digit cs) \<le> length cs" by (rule length_dropWhile_le)
    with False s d show ?thesis by simp
  qed
  from a s d obtain fr s2 ex where f: "parse_frac ?s1 = Some (fr, s2)"
    and e: "parse_exp s2 = Some (ex, r)"
    by (auto simp: parse_unsigned_def Let_def split: if_splits option.splits)
  from parse_frac_consumes [OF f] parse_exp_consumes [OF e] l1 show ?thesis by simp
qed

lemma parse_number_consumes: "parse_number s = Some (x, r) \<Longrightarrow> length r < length s"
  by (auto simp: parse_number_def split: list.splits if_splits
      dest!: parse_unsigned_consumes)

lemma parse_consumes:
  "parse_value s = Some (v, r) \<Longrightarrow> length r < length s"
  "parse_elems s = Some (vs, r) \<Longrightarrow> length r < length s"
  "parse_members s = Some (kvs, r) \<Longrightarrow> length r < length s"
proof (induction s and s and s arbitrary: v r and vs r and kvs r
    rule: parse_value_parse_elems_parse_members.induct)
  case (1 s)
  from "1.prems" obtain c cs where ws: "skip_ws s = c # cs"
    by (cases "skip_ws s") (auto simp: parse_value.simps [of s])
  note lcs = skip_ws_Cons_length [OF ws]
  consider (arr) "c = 0x5B" | (obj) "c \<noteq> 0x5B" "c = 0x7B"
    | (other) "c \<noteq> 0x5B" "c \<noteq> 0x7B"
    by blast
  then show ?case
  proof cases
    case arr
    with "1.prems" ws obtain d ds where ws2: "skip_ws cs = d # ds"
      by (cases "skip_ws cs") (auto simp: parse_value.simps [of s])
    note lds = skip_ws_Cons_length [OF ws2]
    show ?thesis
    proof (cases "d = 0x5D")
      case True
      with "1.prems" ws ws2 arr lcs lds show ?thesis
        by (auto simp: parse_value.simps [of s])
    next
      case False
      with "1.prems" ws ws2 arr obtain vs where "parse_elems (d # ds) = Some (vs, r)"
        by (auto simp: parse_value.simps [of s] split: option.splits)
      from "1.IH"(1) [OF ws arr ws2 False this] lcs lds show ?thesis by simp
    qed
  next
    case obj
    with "1.prems" ws obtain d ds where ws2: "skip_ws cs = d # ds"
      by (cases "skip_ws cs") (auto simp: parse_value.simps [of s])
    note lds = skip_ws_Cons_length [OF ws2]
    show ?thesis
    proof (cases "d = 0x7D")
      case True
      with "1.prems" ws ws2 obj lcs lds show ?thesis
        by (auto simp: parse_value.simps [of s])
    next
      case False
      with "1.prems" ws ws2 obj obtain kvs where "parse_members (d # ds) = Some (kvs, r)"
        by (auto simp: parse_value.simps [of s] split: option.splits)
      from "1.IH"(2) [OF ws obj ws2 False this] lcs lds show ?thesis by simp
    qed
  next
    case other
    have "length (skip_ws s) \<le> length s" by (rule skip_ws_length)
    with "1.prems" ws other lcs show ?thesis
      by (auto simp: parse_value.simps [of s] split: option.splits if_splits
          dest!: parse_string_chars_consumes parse_number_consumes)
  qed
next
  case (2 s)
  from "2.prems" obtain v r1 where pv: "parse_value s = Some (v, r1)"
    by (cases "parse_value s") (auto simp: parse_elems.simps [of s])
  note l1 = "2.IH"(1) [OF pv]
  from "2.prems" pv obtain c cs where ws: "skip_ws r1 = c # cs"
    by (cases "skip_ws r1") (auto simp: parse_elems.simps [of s])
  note lcs = skip_ws_Cons_length [OF ws]
  show ?case
  proof (cases "c = 0x5D")
    case True
    with "2.prems" pv ws l1 lcs show ?thesis
      by (auto simp: parse_elems.simps [of s])
  next
    case False
    with "2.prems" pv ws have g: "c = 0x2C \<and> length cs < length s"
      by (auto simp: parse_elems.simps [of s] split: if_splits)
    with "2.prems" pv ws False obtain vs' where "parse_elems cs = Some (vs', r)"
      by (auto simp: parse_elems.simps [of s] split: option.splits)
    from "2.IH"(2) [OF pv _ ws False g this] g show ?thesis by simp
  qed
next
  case (3 s)
  from "3.prems" obtain c cs where ws: "skip_ws s = c # cs"
    by (cases "skip_ws s") (auto simp: parse_members.simps [of s])
  from "3.prems" ws have c: "\<not> c \<noteq> 0x22"
    by (auto simp: parse_members.simps [of s] split: if_splits)
  from "3.prems" ws c obtain k r1 where ps: "parse_string_chars cs = Some (k, r1)"
    by (cases "parse_string_chars cs") (auto simp: parse_members.simps [of s])
  from "3.prems" ws c ps obtain c2 cs2 where ws2: "skip_ws r1 = c2 # cs2"
    by (cases "skip_ws r1") (auto simp: parse_members.simps [of s])
  from "3.prems" ws c ps ws2 have g2: "c2 = 0x3A \<and> length cs2 < length s"
    by (auto simp: parse_members.simps [of s] split: if_splits)
  from "3.prems" ws c ps ws2 g2 obtain v r2 where pv: "parse_value cs2 = Some (v, r2)"
    by (cases "parse_value cs2") (auto simp: parse_members.simps [of s])
  note l2 = "3.IH"(1) [OF ws c ps _ ws2 g2 pv]
  from "3.prems" ws c ps ws2 g2 pv obtain c3 cs3 where ws3: "skip_ws r2 = c3 # cs3"
    by (cases "skip_ws r2") (auto simp: parse_members.simps [of s])
  note l3 = skip_ws_Cons_length [OF ws3]
  show ?case
  proof (cases "c3 = 0x7D")
    case True
    with "3.prems" ws c ps ws2 g2 pv ws3 l2 l3 show ?thesis
      by (auto simp: parse_members.simps [of s])
  next
    case False
    with "3.prems" ws c ps ws2 g2 pv ws3 have g3: "c3 = 0x2C \<and> length cs3 < length s"
      by (auto simp: parse_members.simps [of s] split: if_splits)
    with "3.prems" ws c ps ws2 g2 pv ws3 False obtain kvs' where
      "parse_members cs3 = Some (kvs', r)"
      by (auto simp: parse_members.simps [of s] split: option.splits)
    from "3.IH"(2) [OF ws c ps _ ws2 g2 pv _ ws3 False g3 this, OF refl refl] g3
    show ?thesis by simp
  qed
qed

text \<open>The two functions without the comparisons.\<close>

lemma parse_elems_unguarded:
  "parse_elems s =
     (case parse_value s of
        None \<Rightarrow> None
      | Some (v, r) \<Rightarrow>
          (case skip_ws r of
             [] \<Rightarrow> None
           | c # cs \<Rightarrow>
               if c = 0x5D then Some ([v], cs)
               else if c = 0x2C then
                 (case parse_elems cs of
                    None \<Rightarrow> None
                  | Some (vs, r') \<Rightarrow> Some (v # vs, r'))
               else None))"
proof (cases "parse_value s")
  case None
  then show ?thesis by (subst parse_elems.simps) simp
next
  case (Some p)
  obtain v r where p: "p = (v, r)" by (cases p)
  from Some p have l: "length r < length s" by (simp add: parse_consumes(1))
  show ?thesis
  proof (cases "skip_ws r")
    case Nil
    with Some p show ?thesis by (subst parse_elems.simps) simp
  next
    case (Cons c cs)
    from skip_ws_Cons_length [OF Cons] l have "length cs < length s" by simp
    with Some p Cons show ?thesis by (subst parse_elems.simps) simp
  qed
qed

lemma parse_members_unguarded:
  "parse_members s =
     (case skip_ws s of
        [] \<Rightarrow> None
      | c # cs \<Rightarrow>
          if c \<noteq> 0x22 then None
          else
            (case parse_string_chars cs of
               None \<Rightarrow> None
             | Some (k, r) \<Rightarrow>
                 (case skip_ws r of
                    [] \<Rightarrow> None
                  | c2 # cs2 \<Rightarrow>
                      if c2 = 0x3A then
                        (case parse_value cs2 of
                           None \<Rightarrow> None
                         | Some (v, r2) \<Rightarrow>
                             (case skip_ws r2 of
                                [] \<Rightarrow> None
                              | c3 # cs3 \<Rightarrow>
                                  if c3 = 0x7D then Some ([(k, v)], cs3)
                                  else if c3 = 0x2C then
                                    (case parse_members cs3 of
                                       None \<Rightarrow> None
                                     | Some (kvs, r3) \<Rightarrow> Some ((k, v) # kvs, r3))
                                  else None))
                      else None)))"
proof (cases "skip_ws s")
  case Nil
  then show ?thesis by (subst parse_members.simps) simp
next
  case (Cons c cs)
  note l0 = skip_ws_Cons_length [OF Cons]
  show ?thesis
  proof (cases "parse_string_chars cs")
    case None
    with Cons show ?thesis by (subst parse_members.simps) simp
  next
    case (Some p)
    obtain k r where p: "p = (k, r)" by (cases p)
    from Some p have l1: "length r < length cs" by (simp add: parse_string_chars_consumes)
    show ?thesis
    proof (cases "skip_ws r")
      case Nil
      with Cons Some p show ?thesis by (subst parse_members.simps) simp
    next
      case c2: (Cons c2 cs2)
      from skip_ws_Cons_length [OF c2] l1 l0 have g2: "length cs2 < length s" by simp
      show ?thesis
      proof (cases "parse_value cs2")
        case None
        with Cons Some p c2 g2 show ?thesis by (subst parse_members.simps) simp
      next
        case pv: (Some q)
        obtain v r2 where q: "q = (v, r2)" by (cases q)
        from pv q have l2: "length r2 < length cs2" by (simp add: parse_consumes(1))
        show ?thesis
        proof (cases "skip_ws r2")
          case Nil
          with Cons Some p c2 g2 pv q show ?thesis by (subst parse_members.simps) simp
        next
          case c3: (Cons c3 cs3)
          from skip_ws_Cons_length [OF c3] l2 g2 have "length cs3 < length s" by simp
          with Cons Some p c2 g2 pv q c3 show ?thesis by (subst parse_members.simps) simp
        qed
      qed
    qed
  qed
qed

subsection \<open>Strings survive quoting\<close>

lemma unat_offset:
  "n < 16 \<Longrightarrow> unat (0x30 + of_nat n :: 16 word) = 0x30 + n"
  "n < 16 \<Longrightarrow> unat (0x57 + of_nat n :: 16 word) = 0x57 + n"
  by (simp_all add: unat_word_ariths unat_of_nat)

lemma hex_val_hex_digit: "n < 16 \<Longrightarrow> hex_val (hex_digit n) = Some n"
  by (auto simp: hex_val_def hex_digit_def word_le_nat_alt unat_offset)

lemma nibbles:
  "((n div 4096 * 16 + n div 256 mod 16) * 16 + n div 16 mod 16) * 16 + n mod 16 = (n::nat)"
proof -
  have a: "n div 4096 = n div 256 div 16" and b: "n div 256 = n div 16 div 16"
    by (simp_all add: div_mult2_eq [symmetric])
  have "n div 4096 * 16 + n div 256 mod 16 = n div 256"
    unfolding a by simp
  moreover have "n div 256 * 16 + n div 16 mod 16 = n div 16"
    unfolding b by simp
  ultimately show ?thesis by simp
qed


lemma hex4_unicode_escape:
  "hex4 (hex_digit (unat c div 4096)) (hex_digit (unat c div 256 mod 16))
        (hex_digit (unat c div 16 mod 16)) (hex_digit (unat c mod 16)) = Some c"
proof -
  have "unat c < 65536"
    using unsigned_less [of c, where ?'a = nat] by simp
  then have d: "unat c div 4096 < 16" by simp
  have "hex4 (hex_digit (unat c div 4096)) (hex_digit (unat c div 256 mod 16))
          (hex_digit (unat c div 16 mod 16)) (hex_digit (unat c mod 16))
        = Some (of_nat (((unat c div 4096 * 16 + unat c div 256 mod 16) * 16
                          + unat c div 16 mod 16) * 16 + unat c mod 16))"
    using d by (simp add: hex4_def hex_val_hex_digit del: of_nat_add of_nat_mult)
  also have "\<dots> = Some (of_nat (unat c))"
    by (simp only: nibbles)
  finally show ?thesis by simp
qed

lemma parse_unicode_escape:
  "parse_string_chars (unicode_escape c @ rest) =
     (case parse_string_chars rest of None \<Rightarrow> None | Some (str, r) \<Rightarrow> Some (c # str, r))"
  by (simp add: unicode_escape_def hex4_unicode_escape)


lemma parse_escape_unit:
  "parse_string_chars (escape_unit c @ rest) =
     (case parse_string_chars rest of None \<Rightarrow> None | Some (str, r) \<Rightarrow> Some (c # str, r))"
proof -
  consider (two) "c = 0x08 \<or> c = 0x09 \<or> c = 0x0A \<or> c = 0x0C \<or> c = 0x0D \<or> c = 0x22 \<or> c = 0x5C"
    | (uni) "escape_unit c = unicode_escape c"
    | (plain) "escape_unit c = [c]" "c \<noteq> 0x22" "c \<noteq> 0x5C" "\<not> c < 0x20"
    unfolding escape_unit_def by presburger
  then show ?thesis
  proof cases
    case two
    then show ?thesis
      by (elim disjE; hypsubst) (simp_all add: escape_unit_def unescape_def)
  next
    case uni
    then show ?thesis by (simp add: parse_unicode_escape)
  next
    case plain
    then show ?thesis by simp
  qed
qed


lemma lead_plain: "is_lead c \<Longrightarrow> c \<noteq> 0x22 \<and> c \<noteq> 0x5C \<and> \<not> c < 0x20"
  unfolding is_lead_def by (auto simp: word_le_nat_alt word_less_nat_alt)

lemma trail_plain: "is_trail c \<Longrightarrow> c \<noteq> 0x22 \<and> c \<noteq> 0x5C \<and> \<not> c < 0x20"
  unfolding is_trail_def by (auto simp: word_le_nat_alt word_less_nat_alt)


lemma parse_plain_unit:
  "c \<noteq> 0x22 \<and> c \<noteq> 0x5C \<and> \<not> c < 0x20 \<Longrightarrow>
   parse_string_chars (c # s) =
     (case parse_string_chars s of None \<Rightarrow> None | Some (str, r) \<Rightarrow> Some (c # str, r))"
  by simp

lemma parse_quote_chars:
  "parse_string_chars (quote_chars s @ 0x22 # rest) = Some (s, rest)"
proof (induction s rule: quote_chars.induct)
  case 1
  show ?case by simp
next
  case (2 c)
  show ?case by (simp add: parse_escape_unit)
next
  case (3 c d cs)
  show ?case
  proof (cases "is_lead c \<and> is_trail d")
    case True
    then have q: "quote_chars (c # d # cs) = c # d # quote_chars cs" by simp
    from True 3 have ih: "parse_string_chars (quote_chars cs @ 0x22 # rest) = Some (cs, rest)"
      by simp
    from True have pc: "c \<noteq> 0x22 \<and> c \<noteq> 0x5C \<and> \<not> c < 0x20"
      and pd: "d \<noteq> 0x22 \<and> d \<noteq> 0x5C \<and> \<not> d < 0x20"
      by (simp_all add: lead_plain trail_plain)
    show ?thesis
      unfolding q by (simp only: append_Cons parse_plain_unit [OF pc] parse_plain_unit [OF pd]
          ih option.case prod.case)
  next
    case False
    then have q: "quote_chars (c # d # cs) = escape_unit c @ quote_chars (d # cs)"
      by auto
    from False 3 have ih:
      "parse_string_chars (quote_chars (d # cs) @ 0x22 # rest) = Some (d # cs, rest)"
      by blast
    show ?thesis
      unfolding q by (simp only: append_assoc parse_escape_unit ih option.case prod.case)
  qed
qed

lemma parse_value_quote: "parse_value (quote s @ rest) = Some (JStr s, rest)"
  by (subst parse_value.simps) (simp add: quote_def skip_ws_def is_ws_def parse_quote_chars)

lemma parse_value_true: "parse_value (js ''true'' @ rest) = Some (JBool True, rest)"
  by (subst parse_value.simps) (simp add: js_def skip_ws_def is_ws_def)

lemma parse_value_false: "parse_value (js ''false'' @ rest) = Some (JBool False, rest)"
  by (subst parse_value.simps) (simp add: js_def skip_ws_def is_ws_def)

lemma parse_value_empty_array: "parse_value (0x5B # 0x5D # rest) = Some (JArr [], rest)"
  by (subst parse_value.simps) (simp add: skip_ws_def is_ws_def)

lemma parse_value_array:
  "parse_elems (0x7B # s) = Some (vs, r) \<Longrightarrow> parse_value (0x5B # 0x7B # s) = Some (JArr vs, r)"
  by (subst parse_value.simps) (simp add: skip_ws_def is_ws_def)

lemma parse_value_object:
  "parse_members (0x22 # s) = Some (kvs, r) \<Longrightarrow>
   parse_value (0x7B # 0x22 # s) = Some (make_object kvs, r)"
  by (subst parse_value.simps) (simp add: skip_ws_def is_ws_def)

lemma parse_elems_last:
  "parse_value s = Some (v, 0x5D # r) \<Longrightarrow> parse_elems s = Some ([v], r)"
  by (subst parse_elems.simps) (simp add: skip_ws_def is_ws_def)

lemma parse_elems_more:
  assumes "parse_value s = Some (v, 0x2C # s')" and "parse_elems s' = Some (vs, r)"
  shows "parse_elems s = Some (v # vs, r)"
proof -
  from parse_consumes(1) [OF assms(1)] have "length s' < length s" by simp
  with assms show ?thesis
    by (subst parse_elems.simps) (simp add: skip_ws_def is_ws_def)
qed

lemma parse_members_last:
  assumes "parse_string_chars ks = Some (k, 0x3A # vs)"
    and "parse_value vs = Some (v, 0x7D # r)"
  shows "parse_members (0x22 # ks) = Some ([(k, v)], r)"
proof -
  from parse_string_chars_consumes [OF assms(1)] have "length vs < Suc (length ks)" by simp
  with assms show ?thesis
    by (subst parse_members.simps) (simp add: skip_ws_def is_ws_def)
qed

lemma parse_members_more:
  assumes "parse_string_chars ks = Some (k, 0x3A # vs)"
    and "parse_value vs = Some (v, 0x2C # ms)"
    and "parse_members ms = Some (kvs, r)"
  shows "parse_members (0x22 # ks) = Some ((k, v) # kvs, r)"
proof -
  from parse_string_chars_consumes [OF assms(1)] have l1: "length vs < Suc (length ks)"
    by simp
  from parse_consumes(1) [OF assms(2)] l1 have "length ms < Suc (length ks)" by simp
  with l1 assms show ?thesis
    by (subst parse_members.simps) (simp add: skip_ws_def is_ws_def)
qed

subsection \<open>Nodes survive serialisation\<close>

lemma stringify_node_head: "\<exists>s. stringify_node n = 0x7B # s"
  by (cases n) (simp add: js_def)

lemma member_last:
  assumes "parse_string_chars (key @ 0x22 # 0x3A # val @ 0x7D # r) = Some (k, 0x3A # val @ 0x7D # r)"
    and "parse_value (val @ 0x7D # r) = Some (v, 0x7D # r)"
  shows "parse_members (0x22 # key @ 0x22 # 0x3A # val @ 0x7D # r) = Some ([(k, v)], r)"
  using assms by (rule parse_members_last)

lemma member_more:
  assumes "parse_string_chars (key @ 0x22 # 0x3A # val @ 0x2C # ms) = Some (k, 0x3A # val @ 0x2C # ms)"
    and "parse_value (val @ 0x2C # ms) = Some (v, 0x2C # ms)"
    and "parse_members ms = Some (kvs, r)"
  shows "parse_members (0x22 # key @ 0x22 # 0x3A # val @ 0x2C # ms) = Some ((k, v) # kvs, r)"
  using assms by (rule parse_members_more)

lemma parse_key: "parse_string_chars (quote_chars k @ 0x22 # rest) = Some (k, rest)"
  by (rule parse_quote_chars)

lemma key_plain:
  "quote_chars (js ''id'') = js ''id''"
  "quote_chars (js ''title'') = js ''title''"
  "quote_chars (js ''completed'') = js ''completed''"
  "quote_chars (js ''children'') = js ''children''"
  "quote_chars (js ''text'') = js ''text''"
  "quote_chars (js ''subtasks'') = js ''subtasks''"
  by (simp_all add: js_def escape_unit_def is_lead_def is_trail_def)

lemma parse_value_bool: "parse_value (bool_text c @ rest) = Some (JBool c, rest)"
  by (simp add: bool_text_def parse_value_true parse_value_false)

lemma parse_node:
  "parse_value (stringify_node n @ rest) = Some (json_of_node n, rest)"
  "ns \<noteq> [] \<Longrightarrow>
     parse_elems (stringify_elems ns @ 0x5D # rest) = Some (map json_of_node ns, rest)"
proof (induction n and ns arbitrary: rest and rest rule: stringify_node_stringify_elems.induct)
  case (1 i t c ch)
  define kv4 where "kv4 = (case ch of None \<Rightarrow> []
     | Some ks \<Rightarrow> [(js ''children'', JArr (map json_of_node ks))])"
  define tail where "tail = (case ch of None \<Rightarrow> []
     | Some ks \<Rightarrow> 0x2C # 0x22 # js ''children'' @ 0x22 # 0x3A # (0x5B # stringify_elems ks @ [0x5D]))"
  have m3: "parse_members (0x22 # js ''completed'' @ 0x22 # 0x3A # bool_text c @ tail @ 0x7D # rest)
              = Some ((js ''completed'', JBool c) # kv4, rest)"
  proof (cases ch)
    case None
    then have "tail = []" "kv4 = []" by (simp_all add: tail_def kv4_def)
    then show ?thesis
      using member_last [of "js ''completed''" "bool_text c" rest "js ''completed''" "JBool c"]
        parse_key [of "js ''completed''"] parse_value_bool
      by (simp add: key_plain)
  next
    case (Some ks)
    have arr: "parse_value (0x5B # stringify_elems ks @ 0x5D # 0x7D # rest)
                 = Some (JArr (map json_of_node ks), 0x7D # rest)"
    proof (cases ks)
      case Nil
      then show ?thesis by (simp add: parse_value_empty_array)
    next
      case (Cons k ks')
      from stringify_node_head [of k] obtain s where s: "stringify_node k = 0x7B # s" ..
      then obtain s' where s': "stringify_elems ks = 0x7B # s'"
        using Cons by (cases ks') simp_all
      from Cons Some "1.IH" [of ks "0x7D # rest"]
      have "parse_elems (stringify_elems ks @ 0x5D # 0x7D # rest)
              = Some (map json_of_node ks, 0x7D # rest)"
        by simp
      then show ?thesis
        unfolding s' using parse_value_array [of "s' @ 0x5D # 0x7D # rest"] by simp
    qed
    have m4: "parse_members (0x22 # js ''children'' @ 0x22 # 0x3A # (0x5B # stringify_elems ks @ [0x5D]) @ 0x7D # rest)
                = Some ([(js ''children'', JArr (map json_of_node ks))], rest)"
      using member_last [of "js ''children''" "0x5B # stringify_elems ks @ [0x5D]" rest
          "js ''children''" "JArr (map json_of_node ks)"]
        parse_key [of "js ''children''"] arr
      by (simp add: key_plain)
    have "parse_members (0x22 # js ''completed'' @ 0x22 # 0x3A # bool_text c @ 0x2C #
             (0x22 # js ''children'' @ 0x22 # 0x3A # (0x5B # stringify_elems ks @ [0x5D]) @ 0x7D # rest))
            = Some ((js ''completed'', JBool c) # [(js ''children'', JArr (map json_of_node ks))], rest)"
      using member_more [of "js ''completed''" "bool_text c" _ "js ''completed''" "JBool c", OF _ _ m4]
        parse_key [of "js ''completed''"] parse_value_bool
      by (simp add: key_plain)
    with Some show ?thesis by (simp add: tail_def kv4_def)
  qed
  have m2: "parse_members (0x22 # js ''title'' @ 0x22 # 0x3A # quote t @ 0x2C #
               (0x22 # js ''completed'' @ 0x22 # 0x3A # bool_text c @ tail @ 0x7D # rest))
            = Some ((js ''title'', JStr t) # (js ''completed'', JBool c) # kv4, rest)"
    using member_more [of "js ''title''" "quote t" _ "js ''title''" "JStr t", OF _ _ m3]
      parse_key [of "js ''title''"] parse_value_quote
    by (simp add: key_plain)
  have m1: "parse_members (0x22 # js ''id'' @ 0x22 # 0x3A # quote i @ 0x2C #
               (0x22 # js ''title'' @ 0x22 # 0x3A # quote t @ 0x2C #
               (0x22 # js ''completed'' @ 0x22 # 0x3A # bool_text c @ tail @ 0x7D # rest)))
            = Some ((js ''id'', JStr i) # (js ''title'', JStr t) # (js ''completed'', JBool c) # kv4, rest)"
    using member_more [of "js ''id''" "quote i" _ "js ''id''" "JStr i", OF _ _ m2]
      parse_key [of "js ''id''"] parse_value_quote
    by (simp add: key_plain)
  have shape: "stringify_node (Node i t c ch) @ rest =
      0x7B # 0x22 # js ''id'' @ 0x22 # 0x3A # quote i @ 0x2C #
               (0x22 # js ''title'' @ 0x22 # 0x3A # quote t @ 0x2C #
               (0x22 # js ''completed'' @ 0x22 # 0x3A # bool_text c @ tail @ 0x7D # rest))"
    by (cases ch) (simp_all add: js_def tail_def bool_text_def)
  have obj: "make_object ((js ''id'', JStr i) # (js ''title'', JStr t) # (js ''completed'', JBool c) # kv4)
      = json_of_node (Node i t c ch)"
    by (cases ch) (simp_all add: make_object_def kv4_def js_def)
  show ?case
    unfolding shape using parse_value_object [OF m1] obj by simp
next
  case 2
  then show ?case by simp
next
  case (3 n)
  then show ?case
    by (simp add: parse_elems_last)
next
  case (4 n m ms)
  have a: "parse_value (stringify_node n @ 0x2C # stringify_elems (m # ms) @ 0x5D # rest)
        = Some (json_of_node n, 0x2C # stringify_elems (m # ms) @ 0x5D # rest)"
    by (rule "4.IH"(1))
  have b: "parse_elems (stringify_elems (m # ms) @ 0x5D # rest)
        = Some (map json_of_node (m # ms), rest)"
    by (rule "4.IH"(2)) simp
  from parse_elems_more [OF a b] show ?case by (simp add: js_def)
qed

lemma parse_value_nodes:
  "parse_value (0x5B # stringify_elems ks @ 0x5D # rest) = Some (JArr (map json_of_node ks), rest)"
proof (cases ks)
  case Nil
  then show ?thesis by (simp add: parse_value_empty_array)
next
  case (Cons k ks')
  from stringify_node_head [of k] obtain s where "stringify_node k = 0x7B # s" ..
  then obtain s' where s': "stringify_elems ks = 0x7B # s'"
    using Cons by (cases ks') simp_all
  from Cons have "parse_elems (stringify_elems ks @ 0x5D # rest) = Some (map json_of_node ks, rest)"
    by (intro parse_node(2)) simp
  then show ?thesis
    unfolding s' using parse_value_array [of "s' @ 0x5D # rest"] by simp
qed

lemma parse_envelope:
  "json_parse (stringify_envelope t subs)
     = Some (JObj [(js ''text'', JStr t), (js ''subtasks'', JArr (map json_of_node subs))])"
proof -
  have shape: "stringify_envelope t subs =
      0x7B # 0x22 # js ''text'' @ 0x22 # 0x3A # quote t @ 0x2C #
        (0x22 # js ''subtasks'' @ 0x22 # 0x3A # (0x5B # stringify_elems subs @ [0x5D]) @ 0x7D # [])"
    by (simp add: stringify_envelope_def js_def)
  have m2: "parse_members (0x22 # js ''subtasks'' @ 0x22 # 0x3A #
                (0x5B # stringify_elems subs @ [0x5D]) @ 0x7D # [])
              = Some ([(js ''subtasks'', JArr (map json_of_node subs))], [])"
    using member_last [of "js ''subtasks''" "0x5B # stringify_elems subs @ [0x5D]" "[]"
        "js ''subtasks''" "JArr (map json_of_node subs)"]
      parse_key [of "js ''subtasks''"] parse_value_nodes [of subs "[0x7D]"]
    by (simp add: key_plain)
  have m1: "parse_members (0x22 # js ''text'' @ 0x22 # 0x3A # quote t @ 0x2C #
        (0x22 # js ''subtasks'' @ 0x22 # 0x3A # (0x5B # stringify_elems subs @ [0x5D]) @ 0x7D # []))
      = Some ((js ''text'', JStr t) # [(js ''subtasks'', JArr (map json_of_node subs))], [])"
    using member_more [of "js ''text''" "quote t" _ "js ''text''" "JStr t", OF _ _ m2]
      parse_key [of "js ''text''"] parse_value_quote
    by (simp add: key_plain)
  have obj: "make_object ((js ''text'', JStr t) # [(js ''subtasks'', JArr (map json_of_node subs))])
      = JObj [(js ''text'', JStr t), (js ''subtasks'', JArr (map json_of_node subs))]"
    by (simp add: make_object_def js_def)
  show ?thesis
    unfolding shape json_parse_def using parse_value_object [OF m1] obj
    by (simp add: skip_ws_def)
qed

lemma node_of_json_inverse:
  "node_of_json (json_of_node n) = Some n"
  "those (map node_of_json (map json_of_node ns)) = Some ns"
proof (induction n and ns rule: stringify_node_stringify_elems.induct)
  case (1 i t c ch)
  show ?case
  proof (cases ch)
    case None
    then show ?thesis by (simp add: js_def)
  next
    case (Some ks)
    with 1 show ?thesis by (simp add: js_def)
  qed
next
  case 2
  show ?case by simp
next
  case (3 n)
  then show ?case by simp
next
  case (4 n m ms)
  then show ?case by simp
qed

lemma parseDesc_envelope:
  assumes "subs \<noteq> []"
  shows "parseDesc (Some (stringify_envelope t subs))
           = \<lparr>desc_text = JStr t, desc_subtasks = map json_of_node subs\<rparr>"
proof -
  have "stringify_envelope t subs \<noteq> []"
    by (simp add: stringify_envelope_def js_def)
  then show ?thesis
    by (simp add: parseDesc_def parse_envelope js_def)
qed

section \<open>Properties of the codec\<close>

lemma parseDesc_plain:
  "\<not> reads_as_envelope s \<Longrightarrow> parseDesc (Some s) = \<lparr>desc_text = JStr s, desc_subtasks = []\<rparr>"
  by (auto simp: parseDesc_def reads_as_envelope_def
      split: option.splits json.splits)

text \<open>
  Claim C1, as stated, fails.  With no subtasks \<^verbatim>\<open>encodeDesc\<close> returns the text as it
  is, and \<^verbatim>\<open>parseDesc\<close> parses it as JSON first.  The text \<^verbatim>\<open>{"subtasks":[]}\<close> comes
  back as the empty text.
\<close>

theorem codec_roundtrip_counterexample:
  "parseDesc (encodeDesc (js ''{\"subtasks\":[]}'') [])
     \<noteq> \<lparr>desc_text = JStr (js ''{\"subtasks\":[]}''), desc_subtasks = map json_of_node []\<rparr>"
proof -
  have "json_parse (js ''{\"subtasks\":[]}'') = Some (JObj [(js ''subtasks'', JArr [])])"
    by code_simp
  then have "parseDesc (encodeDesc (js ''{\"subtasks\":[]}'') [])
               = \<lparr>desc_text = JStr [], desc_subtasks = []\<rparr>"
    by (simp add: parseDesc_def encodeDesc_def js_def)
  then show ?thesis by (simp add: js_def)
qed

text \<open>
  Claim C1, amended.  Decoding what was encoded gives the text and the subtasks back
  whenever the subtask list is not empty, or it is empty and the text is not itself a JSON
  text whose value passes the test of \<^verbatim>\<open>parseDesc\<close> (an object with an array-typed
  \<^verbatim>\<open>subtasks\<close>).  The subtasks come back as parsed values of which the nodes are the
  typed reading.  \<^verbatim>\<open>encodeDesc('', [])\<close> is \<^verbatim>\<open>null\<close>, and \<^verbatim>\<open>parseDesc(null)\<close> is
  the empty text with no subtasks.
\<close>

theorem codec_roundtrip:
  assumes "subs \<noteq> [] \<or> \<not> reads_as_envelope t"
  shows "parseDesc (encodeDesc t subs)
           = \<lparr>desc_text = JStr t, desc_subtasks = map json_of_node subs\<rparr>
         \<and> nodes_of_json (map json_of_node subs) = Some subs
         \<and> encodeDesc [] [] = None
         \<and> parseDesc None = \<lparr>desc_text = JStr [], desc_subtasks = []\<rparr>"
proof -
  have "parseDesc (encodeDesc t subs)
          = \<lparr>desc_text = JStr t, desc_subtasks = map json_of_node subs\<rparr>"
  proof (cases "subs = []")
    case False
    then show ?thesis by (simp add: encodeDesc_def parseDesc_envelope)
  next
    case True
    with assms have "\<not> reads_as_envelope t" by simp
    with True show ?thesis
      by (cases "t = []") (simp_all add: encodeDesc_def parseDesc_plain, simp add: parseDesc_def)
  qed
  moreover have "nodes_of_json (map json_of_node subs) = Some subs"
    unfolding nodes_of_json_def by (rule node_of_json_inverse(2))
  moreover have "encodeDesc [] [] = None"
    by (simp add: encodeDesc_def)
  moreover have "parseDesc None = \<lparr>desc_text = JStr [], desc_subtasks = []\<rparr>"
    by (simp add: parseDesc_def)
  ultimately show ?thesis by blast
qed

theorem codec_roundtrip_witness:
  "[Node (js ''a'') (js ''A'') True (Some [Node (js ''c'') (js ''C'') False None])] \<noteq> []
   \<and> parseDesc (encodeDesc (js ''note'')
        [Node (js ''a'') (js ''A'') True (Some [Node (js ''c'') (js ''C'') False None])])
      = \<lparr>desc_text = JStr (js ''note''),
         desc_subtasks = map json_of_node
           [Node (js ''a'') (js ''A'') True (Some [Node (js ''c'') (js ''C'') False None])]\<rparr>
   \<and> \<not> reads_as_envelope (js ''note'')
   \<and> parseDesc (encodeDesc (js ''note'') [])
      = \<lparr>desc_text = JStr (js ''note''), desc_subtasks = []\<rparr>"
proof -
  let ?s = "[Node (js ''a'') (js ''A'') True (Some [Node (js ''c'') (js ''C'') False None])]"
  have h1: "?s \<noteq> [] \<or> \<not> reads_as_envelope (js ''note'')" by simp
  have p: "json_parse (js ''note'') = None" by code_simp
  then have h2: "\<not> reads_as_envelope (js ''note'')" by (simp add: reads_as_envelope_def)
  then have h3: "[] \<noteq> [] \<or> \<not> reads_as_envelope (js ''note'')" by simp
  from codec_roundtrip [OF h1] codec_roundtrip [OF h3] h2 show ?thesis by simp
qed

text \<open>
  Claim C5.  \<^verbatim>\<open>parseDesc\<close> is a total function, with a text and a list of subtasks
  for every description: the parser terminates on every input and every failure is a
  branch.  A \<^verbatim>\<open>null\<close> or empty description gives the empty
  text and no subtasks.  A description that is not valid JSON, or that is valid JSON whose
  value has no array-typed \<^verbatim>\<open>subtasks\<close>, comes back whole as the text, with no
  subtasks.
\<close>

theorem parseDesc_total_fallback:
  "(\<exists>t xs. parseDesc desc = \<lparr>desc_text = t, desc_subtasks = xs\<rparr>)
   \<and> parseDesc None = \<lparr>desc_text = JStr [], desc_subtasks = []\<rparr>
   \<and> parseDesc (Some []) = \<lparr>desc_text = JStr [], desc_subtasks = []\<rparr>
   \<and> (s \<noteq> [] \<and> json_parse s = None \<longrightarrow>
        parseDesc (Some s) = \<lparr>desc_text = JStr s, desc_subtasks = []\<rparr>)
   \<and> (s \<noteq> [] \<and> json_parse s = Some d
        \<and> (\<forall>xs. get_prop d (js ''subtasks'') \<noteq> Some (JArr xs)) \<longrightarrow>
        parseDesc (Some s) = \<lparr>desc_text = JStr s, desc_subtasks = []\<rparr>)"
proof -
  have "\<exists>t xs. parseDesc desc = \<lparr>desc_text = t, desc_subtasks = xs\<rparr>"
    by (cases "parseDesc desc") auto
  then show ?thesis
    by (auto simp: parseDesc_def split: option.splits json.splits)
qed

theorem parseDesc_total_fallback_witness:
  "json_parse (js ''buy milk'') = None
   \<and> parseDesc (Some (js ''buy milk''))
       = \<lparr>desc_text = JStr (js ''buy milk''), desc_subtasks = []\<rparr>
   \<and> json_parse (js ''{\"a\":1}'') = Some (JObj [(js ''a'', JNum 1)])
   \<and> get_prop (JObj [(js ''a'', JNum 1)]) (js ''subtasks'') = None
   \<and> parseDesc (Some (js ''{\"a\":1}''))
       = \<lparr>desc_text = JStr (js ''{\"a\":1}''), desc_subtasks = []\<rparr>"
proof -
  have p1: "json_parse (js ''buy milk'') = None" by code_simp
  have p2: "json_parse (js ''{\"a\":1}'') = Some (JObj [(js ''a'', JNum 1)])" by code_simp
  have g: "get_prop (JObj [(js ''a'', JNum 1)]) (js ''subtasks'') = None"
    by (simp add: js_def)
  have n1: "js ''buy milk'' \<noteq> []" and n2: "js ''{\"a\":1}'' \<noteq> []"
    by (simp_all add: js_def)
  from parseDesc_total_fallback [of None "js ''buy milk''" JNull]
    parseDesc_total_fallback [of None "js ''{\"a\":1}''" "JObj [(js ''a'', JNum 1)]"]
    p1 p2 g n1 n2
  show ?thesis by simp
qed

section \<open>Properties of the schedule extraction\<close>

lemma bracket_match_Some_iff:
  "bracket_match s = Some m \<longleftrightarrow>
     (\<exists>pre mid post. s = pre @ 0x5B # mid @ 0x5D # post \<and> 0x5B \<notin> set pre
        \<and> 0x5D \<notin> set post \<and> m = 0x5B # mid @ [0x5D])"
proof
  assume a: "bracket_match s = Some m"
  define pre where "pre = takeWhile (\<lambda>c. c \<noteq> 0x5B) s"
  from a obtain c rest where d: "dropWhile (\<lambda>c. c \<noteq> 0x5B) s = c # rest"
    by (cases "dropWhile (\<lambda>c. c \<noteq> 0x5B) s") (auto simp: bracket_match_def)
  from d have c: "c = 0x5B"
    using hd_dropWhile [of "\<lambda>c. c \<noteq> 0x5B" s] by auto
  from a d have r: "0x5D \<in> set rest"
    and m: "m = c # rev (dropWhile (\<lambda>c. c \<noteq> 0x5D) (rev rest))"
    by (auto simp: bracket_match_def split: if_splits)
  define tk where "tk = takeWhile (\<lambda>c. c \<noteq> 0x5D) (rev rest)"
  from r have "dropWhile (\<lambda>c. c \<noteq> 0x5D) (rev rest) \<noteq> []"
    by (simp add: dropWhile_eq_Nil_conv)
  then obtain e d' where dd: "dropWhile (\<lambda>c. c \<noteq> 0x5D) (rev rest) = e # d'"
    by (cases "dropWhile (\<lambda>c. c \<noteq> 0x5D) (rev rest)") auto
  then have e: "e = 0x5D"
    using hd_dropWhile [of "\<lambda>c. c \<noteq> 0x5D" "rev rest"] by auto
  have "rev rest = tk @ e # d'"
    unfolding tk_def dd [symmetric] by simp
  then have "rev (rev rest) = rev (tk @ e # d')" by simp
  then have rest: "rest = rev d' @ 0x5D # rev tk"
    using e by simp
  have s: "s = pre @ c # rest"
    unfolding pre_def d [symmetric] by simp
  have p: "0x5B \<notin> set pre"
    unfolding pre_def by (auto dest: set_takeWhileD)
  have q: "0x5D \<notin> set (rev tk)"
    unfolding tk_def by (auto dest: set_takeWhileD)
  from s c rest m dd e p q show
    "\<exists>pre mid post. s = pre @ 0x5B # mid @ 0x5D # post \<and> 0x5B \<notin> set pre
        \<and> 0x5D \<notin> set post \<and> m = 0x5B # mid @ [0x5D]"
    by (intro exI [of _ pre] exI [of _ "rev d'"] exI [of _ "rev tk"]) simp
next
  assume "\<exists>pre mid post. s = pre @ 0x5B # mid @ 0x5D # post \<and> 0x5B \<notin> set pre
        \<and> 0x5D \<notin> set post \<and> m = 0x5B # mid @ [0x5D]"
  then obtain pre mid post where s: "s = pre @ 0x5B # mid @ 0x5D # post"
    and p: "0x5B \<notin> set pre" and q: "0x5D \<notin> set post" and m: "m = 0x5B # mid @ [0x5D]"
    by blast
  from p have d: "dropWhile (\<lambda>c. c \<noteq> 0x5B) s = 0x5B # mid @ 0x5D # post"
    unfolding s by (subst dropWhile_append2) auto
  from q have "dropWhile (\<lambda>c. c \<noteq> 0x5D) (rev post @ 0x5D # rev mid) = 0x5D # rev mid"
    by (subst dropWhile_append2) auto
  then have "rev (dropWhile (\<lambda>c. c \<noteq> 0x5D) (rev (mid @ 0x5D # post))) = mid @ [0x5D]"
    by simp
  with d m show "bracket_match s = Some m"
    by (simp add: bracket_match_def)
qed

lemma extractSchedule_Inr_iff:
  "extractSchedule c = Inr v \<longleftrightarrow>
     (\<exists>pre mid post. c = pre @ 0x5B # mid @ 0x5D # post \<and> 0x5B \<notin> set pre
        \<and> 0x5D \<notin> set post \<and> json_parse (0x5B # mid @ [0x5D]) = Some v)"
proof -
  have "extractSchedule c = Inr v \<longleftrightarrow> (\<exists>m. bracket_match c = Some m \<and> json_parse m = Some v)"
    by (auto simp: extractSchedule_def split: option.splits)
  also have "\<dots> \<longleftrightarrow> (\<exists>pre mid post. c = pre @ 0x5B # mid @ 0x5D # post \<and> 0x5B \<notin> set pre
        \<and> 0x5D \<notin> set post \<and> json_parse (0x5B # mid @ [0x5D]) = Some v)"
    unfolding bracket_match_Some_iff by blast
  finally show ?thesis .
qed

lemma finalizePlan_content:
  assumes "history \<noteq> []"
    and "chat (history @ [Message (js ''user'')
           (js ''Please extract the final daily schedule we agreed upon as a JSON array only, no other text.'')])
           systemPrompt True = Inr c"
  shows "finalizePlan chat (Some history) =
           (case extractSchedule c of
              Inr schedule \<Rightarrow> Response 200 (JObj [(js ''schedule'', schedule)])
            | Inl e \<Rightarrow>
                Response 500
                  (JObj [(js ''error'', JStr (js ''Failed to parse schedule from AI response''))]))"
  using assms by (simp add: finalizePlan_def split: sum.splits)

text \<open>
  Claim C3, as stated, fails.  In the response below the first bracketed substring is the
  array with one entry, and it is valid JSON; but the match runs on to the last
  \<^verbatim>\<open>]\<close> of the response, the matched text is not JSON, and the extraction reports a
  parse error.
\<close>

theorem first_bracketed_counterexample:
  "spec_first_bracketed (js ''[{\"title\":\"Read\"}] Times are flexible [up to 10 min].'')
     = Some (js ''[{\"title\":\"Read\"}]'')
   \<and> json_parse (js ''[{\"title\":\"Read\"}]'')
     = Some (JArr [JObj [(js ''title'', JStr (js ''Read''))]])
   \<and> extractSchedule (js ''[{\"title\":\"Read\"}] Times are flexible [up to 10 min].'')
     = Inl JsonSyntaxError"
  by code_simp

text \<open>
  Claim C3, amended.  \<^verbatim>\<open>finalizePlan\<close> takes the substring from the first \<^verbatim>\<open>[\<close> of
  the response to its last \<^verbatim>\<open>]\<close> and parses it as JSON.  It answers with the parsed
  schedule exactly when that substring exists and is valid JSON; otherwise, whenever the
  chat capability returned a response, it answers with the error
  \<^verbatim>\<open>Failed to parse schedule from AI response\<close> and no schedule.  The witness is the
  pair of scenarios of the specification: one entry extracted, and a parse failure for a
  response without brackets.
\<close>

theorem schedule_extraction:
  "(extractSchedule c = Inr v \<longleftrightarrow>
      (\<exists>pre mid post. c = pre @ 0x5B # mid @ 0x5D # post \<and> 0x5B \<notin> set pre
         \<and> 0x5D \<notin> set post \<and> json_parse (0x5B # mid @ [0x5D]) = Some v))
   \<and> (history \<noteq> []
        \<and> chat (history @ [Message (js ''user'')
             (js ''Please extract the final daily schedule we agreed upon as a JSON array only, no other text.'')])
             systemPrompt True = Inr c
        \<longrightarrow> finalizePlan chat (Some history) =
           (case extractSchedule c of
              Inr schedule \<Rightarrow> Response 200 (JObj [(js ''schedule'', schedule)])
            | Inl e \<Rightarrow>
                Response 500
                  (JObj [(js ''error'', JStr (js ''Failed to parse schedule from AI response''))])))"
  using extractSchedule_Inr_iff [of c v] finalizePlan_content [of history chat c] by blast

theorem schedule_extraction_witness:
  "finalizePlan
     (\<lambda>messages prompt thinking. Inr (js ''Here is your plan: [{\"title\":\"Write report\",\"description\":\"Draft section 1\",\"startTime\":\"09:00\",\"endTime\":\"10:30\",\"estimatedMins\":90}] Let me know!''))
     (Some [Message (js ''user'') (js ''Plan my day'')])
   = Response 200 (JObj [(js ''schedule'',
       JArr [JObj [(js ''title'', JStr (js ''Write report'')),
                   (js ''description'', JStr (js ''Draft section 1'')),
                   (js ''startTime'', JStr (js ''09:00'')),
                   (js ''endTime'', JStr (js ''10:30'')),
                   (js ''estimatedMins'', JNum 90)]])])
   \<and> finalizePlan
     (\<lambda>messages prompt thinking. Inr (js ''I could not settle on a plan.''))
     (Some [Message (js ''user'') (js ''Plan my day'')])
   = Response 500 (JObj [(js ''error'', JStr (js ''Failed to parse schedule from AI response''))])"
proof -
  let ?h = "[Message (js ''user'') (js ''Plan my day'')]"
  let ?c1 = "js ''Here is your plan: [{\"title\":\"Write report\",\"description\":\"Draft section 1\",\"startTime\":\"09:00\",\"endTime\":\"10:30\",\"estimatedMins\":90}] Let me know!''"
  let ?c2 = "js ''I could not settle on a plan.''"
  have e1: "extractSchedule ?c1 = Inr (JArr [JObj [(js ''title'', JStr (js ''Write report'')),
                   (js ''description'', JStr (js ''Draft section 1'')),
                   (js ''startTime'', JStr (js ''09:00'')),
                   (js ''endTime'', JStr (js ''10:30'')),
                   (js ''estimatedMins'', JNum 90)]])"
    by code_simp
  have e2: "extractSchedule ?c2 = Inl NoJsonArray"
    by code_simp
  have h: "?h \<noteq> []" by simp
  from schedule_extraction [of ?c1 JNull ?h "\<lambda>messages prompt thinking. Inr ?c1"]
    schedule_extraction [of ?c2 JNull ?h "\<lambda>messages prompt thinking. Inr ?c2"] h e1 e2
  show ?thesis by simp
qed

section \<open>Properties of double arithmetic\<close>

subsection \<open>The exponent\<close>

lemma powi_less_cancel: "(2::rat) powi m < 2 powi n \<Longrightarrow> m < n"
proof (rule ccontr)
  assume a: "(2::rat) powi m < 2 powi n" and "\<not> m < n"
  then have "n \<le> m" by simp
  then have "(2::rat) powi n \<le> 2 powi m" by (intro power_int_increasing) simp_all
  with a show False by simp
qed

lemma bitlen_rat_bounds:
  assumes "0 < a"
  shows "(2::rat) powi (bitlen a - 1) \<le> of_int a" and "of_int a < (2::rat) powi bitlen a"
proof -
  from assms have b1: "1 \<le> bitlen a"
    using bitlen_eq_zero_iff [of a] bitlen_nonneg [of a] by linarith
  from bitlen_bounds [OF assms] have lo: "2 ^ nat (bitlen a - 1) \<le> a"
    and hi: "a < 2 ^ nat (bitlen a)" by simp_all
  from lo have "(of_int (2 ^ nat (bitlen a - 1)) :: rat) \<le> of_int a"
    by (simp only: of_int_le_iff)
  with b1 show "(2::rat) powi (bitlen a - 1) \<le> of_int a"
    by (simp add: power_int_def)
  from hi have "(of_int a :: rat) < of_int (2 ^ nat (bitlen a))"
    by (simp only: of_int_less_iff)
  with b1 show "of_int a < (2::rat) powi bitlen a"
    by (simp add: power_int_def)
qed

lemma ilog2_bounds:
  assumes "0 < x"
  shows "2 powi ilog2 x \<le> x" and "x < 2 powi (ilog2 x + 1)"
proof -
  obtain a b where q: "quotient_of x = (a, b)" by (cases "quotient_of x")
  from quotient_of_denom_pos [OF q] have b: "0 < b" .
  from quotient_of_div [OF q] have x: "x = of_int a / of_int b" .
  from assms b x have a: "0 < a"
    by (simp add: zero_less_divide_iff)
  define e where "e = bitlen a - bitlen b"
  note ba = bitlen_rat_bounds [OF a] and bb = bitlen_rat_bounds [OF b]
  from b have b': "(0::rat) < of_int b" by simp
  have up: "x < 2 powi (e + 1)"
  proof -
    have "x * of_int b = (of_int a :: rat)" using x b' by simp
    also have "\<dots> < 2 powi bitlen a" by (rule ba(2))
    also have "\<dots> = 2 powi (e + 1) * 2 powi (bitlen b - 1)"
      by (simp add: e_def flip: power_int_add)
    also have "\<dots> \<le> 2 powi (e + 1) * of_int b"
      using bb(1) by (intro mult_left_mono) simp_all
    finally show ?thesis using b' by simp
  qed
  have lo: "2 powi (e - 1) < x"
  proof -
    have "(2::rat) powi (e - 1) * of_int b < 2 powi (e - 1) * 2 powi bitlen b"
      using bb(2) by (intro mult_strict_left_mono) simp_all
    also have "\<dots> = 2 powi (bitlen a - 1)"
      by (simp add: e_def flip: power_int_add)
    also have "\<dots> \<le> of_int a" by (rule ba(1))
    also have "\<dots> = x * of_int b" using x b' by simp
    finally show ?thesis using b' by simp
  qed
  have i: "ilog2 x = (if 2 powi e \<le> x then e else e - 1)"
    by (simp add: ilog2_def q e_def Let_def)
  show "2 powi ilog2 x \<le> x"
    using lo by (simp add: i)
  show "x < 2 powi (ilog2 x + 1)"
    using up by (simp add: i not_le)
qed

lemma ilog2_unique:
  assumes "2 powi e \<le> x" and "x < 2 powi (e + 1)"
  shows "ilog2 x = e"
proof -
  have "(0::rat) < 2 powi e" by simp
  with assms(1) have x: "0 < x" by linarith
  note b = ilog2_bounds [OF x]
  from b(1) assms(2) have "(2::rat) powi ilog2 x < 2 powi (e + 1)" by simp
  then have "ilog2 x < e + 1" by (rule powi_less_cancel)
  moreover from assms(1) b(2) have "(2::rat) powi e < 2 powi (ilog2 x + 1)" by simp
  then have "e < ilog2 x + 1" by (rule powi_less_cancel)
  ultimately show ?thesis by simp
qed

subsection \<open>Rounding is monotone\<close>

lemma rne_of_int: "rne (of_int k) = k"
  by (simp add: rne_def)

lemma rne_cases: "rne x = \<lfloor>x\<rfloor> \<or> rne x = \<lfloor>x\<rfloor> + 1"
  by (simp add: rne_def Let_def)

lemma rne_mono:
  assumes "x \<le> y"
  shows "rne x \<le> rne y"
proof (cases "\<lfloor>x\<rfloor> = \<lfloor>y\<rfloor>")
  case True
  from assms have "x - of_int \<lfloor>x\<rfloor> \<le> y - of_int \<lfloor>x\<rfloor>" by simp
  with True show ?thesis
    by (auto simp: rne_def Let_def)
next
  case False
  from assms have "\<lfloor>x\<rfloor> \<le> \<lfloor>y\<rfloor>" by (rule floor_mono)
  with False have "\<lfloor>x\<rfloor> + 1 \<le> \<lfloor>y\<rfloor>" by simp
  with rne_cases [of x] rne_cases [of y] show ?thesis by auto
qed

lemma rne_lower: "of_int m \<le> x \<Longrightarrow> m \<le> rne x"
  using rne_mono [of "of_int m" x] by (simp add: rne_of_int)

lemma rne_upper: "x \<le> of_int m \<Longrightarrow> rne x \<le> m"
  using rne_mono [of x "of_int m"] by (simp add: rne_of_int)

lemma fl_pos_eq:
  "0 < x \<Longrightarrow> fl x = of_int (rne (x / 2 powi (ilog2 x - 52))) * 2 powi (ilog2 x - 52)"
  by (simp add: fl_def Let_def)

lemma fl_range:
  assumes "0 < x"
  shows "2 powi ilog2 x \<le> fl x" and "fl x \<le> 2 powi (ilog2 x + 1)"
proof -
  define e where "e = ilog2 x"
  define u :: rat where "u = 2 powi (e - 52)"
  have u: "0 < u" by (simp add: u_def)
  note b = ilog2_bounds [OF assms, folded e_def]
  have p52: "(2::rat) powi e = of_int (2 ^ 52) * u"
    by (simp add: u_def power_int_diff)
  have p53: "(2::rat) powi (e + 1) = of_int (2 ^ 53) * u"
    by (simp add: u_def power_int_diff power_int_add)
  from b(1) u have "of_int (2 ^ 52) \<le> x / u"
    by (simp add: p52 pos_le_divide_eq)
  then have lo: "2 ^ 52 \<le> rne (x / u)" by (rule rne_lower)
  from b(2) u have "x / u \<le> of_int (2 ^ 53)"
    by (simp add: p53 pos_divide_le_eq)
  then have hi: "rne (x / u) \<le> 2 ^ 53" by (rule rne_upper)
  have f: "fl x = of_int (rne (x / u)) * u"
    using assms by (simp add: fl_pos_eq u_def e_def)
  from lo have "(of_int (2 ^ 52) :: rat) \<le> of_int (rne (x / u))"
    by (simp only: of_int_le_iff)
  with u have "of_int (2 ^ 52) * u \<le> of_int (rne (x / u)) * u"
    by (intro mult_right_mono) simp_all
  then show "2 powi ilog2 x \<le> fl x"
    by (simp only: f p52 [symmetric] e_def)
  from hi have "(of_int (rne (x / u)) :: rat) \<le> of_int (2 ^ 53)"
    by (simp only: of_int_le_iff)
  with u have "of_int (rne (x / u)) * u \<le> of_int (2 ^ 53) * u"
    by (intro mult_right_mono) simp_all
  then show "fl x \<le> 2 powi (ilog2 x + 1)"
    by (simp only: f p53 [symmetric] e_def)
qed

lemma fl_pos: "0 < x \<Longrightarrow> 0 < fl x"
proof -
  assume "0 < x"
  from fl_range(1) [OF this] have "2 powi ilog2 x \<le> fl x" .
  moreover have "(0::rat) < 2 powi ilog2 x" by simp
  ultimately show ?thesis by linarith
qed

lemma fl_zero: "fl 0 = 0"
  by (simp add: fl_def)

lemma fl_mono_pos:
  assumes "0 < x" and "x \<le> y"
  shows "fl x \<le> fl y"
proof -
  from assms have y: "0 < y" by simp
  note bx = ilog2_bounds [OF assms(1)] and by' = ilog2_bounds [OF y]
  from bx(1) assms(2) by'(2) have "(2::rat) powi ilog2 x < 2 powi (ilog2 y + 1)" by simp
  then have le: "ilog2 x \<le> ilog2 y" using powi_less_cancel by fastforce
  show ?thesis
  proof (cases "ilog2 x = ilog2 y")
    case True
    define u :: rat where "u = 2 powi (ilog2 y - 52)"
    have u: "0 < u" by (simp add: u_def)
    from assms(2) u have "x / u \<le> y / u" by (simp add: divide_right_mono)
    then have "rne (x / u) \<le> rne (y / u)" by (rule rne_mono)
    then have "(of_int (rne (x / u)) :: rat) \<le> of_int (rne (y / u))" by simp
    with u have "of_int (rne (x / u)) * u \<le> of_int (rne (y / u)) * u"
      by (intro mult_right_mono) simp_all
    then show ?thesis
      using assms(1) y True by (simp add: fl_pos_eq u_def)
  next
    case False
    with le have "ilog2 x + 1 \<le> ilog2 y" by simp
    then have "(2::rat) powi (ilog2 x + 1) \<le> 2 powi ilog2 y"
      by (intro power_int_increasing) simp_all
    with fl_range(2) [OF assms(1)] fl_range(1) [OF y] show ?thesis by linarith
  qed
qed

lemma fl_mono: "0 \<le> x \<Longrightarrow> x \<le> y \<Longrightarrow> fl x \<le> fl y"
proof -
  assume a: "0 \<le> x" "x \<le> y"
  show ?thesis
  proof (cases "x = 0")
    case True
    show ?thesis
    proof (cases "y = 0")
      case True
      with \<open>x = 0\<close> show ?thesis by simp
    next
      case False
      with a True have "0 < y" by simp
      from fl_pos [OF this] True show ?thesis by (simp add: fl_zero)
    qed
  next
    case False
    with a have "0 < x" by simp
    then show ?thesis using a(2) by (rule fl_mono_pos)
  qed
qed

subsection \<open>Rounding is exact on doubles\<close>

text \<open>An integer below \<open>2\<^sup>5\<^sup>3\<close> times a power of two is a double.\<close>

lemma fl_exact:
  assumes "0 < j" and "j < 2 ^ 53"
  shows "fl (of_int j * 2 powi p) = of_int j * 2 powi p"
proof -
  define b where "b = bitlen j"
  define x :: rat where "x = of_int j * 2 powi p"
  note bj = bitlen_rat_bounds [OF assms(1), folded b_def]
  have x: "0 < x" using assms(1) by (simp add: x_def)
  from assms(2) have "(of_int j :: rat) < of_int (2 ^ 53)" by (simp only: of_int_less_iff)
  with bj(1) have "(2::rat) powi (b - 1) < 2 powi 53" by simp
  then have b53: "b - 1 < 53" by (rule powi_less_cancel)
  have lo: "2 powi (b - 1 + p) \<le> x"
  proof -
    have "(2::rat) powi (b - 1 + p) = 2 powi (b - 1) * 2 powi p" by (simp add: power_int_add)
    also have "\<dots> \<le> of_int j * 2 powi p"
      using bj(1) by (intro mult_right_mono) simp_all
    finally show ?thesis by (simp add: x_def)
  qed
  have hi: "x < 2 powi (b - 1 + p + 1)"
  proof -
    have "x < 2 powi b * 2 powi p"
      unfolding x_def using bj(2) by (intro mult_strict_right_mono) simp_all
    also have "\<dots> = 2 powi (b - 1 + p + 1)" by (simp flip: power_int_add)
    finally show ?thesis .
  qed
  from lo hi have e: "ilog2 x = b - 1 + p" by (rule ilog2_unique)
  define u :: rat where "u = 2 powi (b - 1 + p - 52)"
  have u: "0 < u" by (simp add: u_def)
  have "(2::rat) powi p = 2 powi (53 - b) * u"
    by (simp add: u_def flip: power_int_add)
  also from b53 have "(2::rat) powi (53 - b) = of_int (2 ^ nat (53 - b))"
    by (simp add: power_int_def)
  finally have xu: "x = of_int (j * 2 ^ nat (53 - b)) * u"
    by (simp add: x_def)
  then have "x / u = of_int (j * 2 ^ nat (53 - b))" using u by simp
  then have "rne (x / u) = j * 2 ^ nat (53 - b)" by (simp only: rne_of_int)
  then have "fl x = of_int (j * 2 ^ nat (53 - b)) * u"
    using x by (simp add: fl_pos_eq e u_def)
  also note xu [symmetric]
  finally show ?thesis by (simp only: x_def)
qed

lemma fl_of_int: "0 \<le> k \<Longrightarrow> k < 2 ^ 53 \<Longrightarrow> fl (of_int k) = of_int k"
proof -
  assume a: "0 \<le> k" "k < 2 ^ 53"
  show ?thesis
  proof (cases "k = 0")
    case True
    then show ?thesis by (simp add: fl_zero)
  next
    case False
    with a have "0 < k" by simp
    from fl_exact [OF this a(2), of 0] show ?thesis by simp
  qed
qed

text \<open>Rounding a quotient of integers: the double division does not move it across a tie.\<close>

lemma Math_round_fl_div:
  assumes s: "0 \<le> s" "s \<le> 100 * int n" and n: "0 < n" "n < 2 ^ 32"
  shows "Math_round (fl (of_int s / of_nat n)) = \<lfloor>of_int s / of_nat n + 1 / 2 :: rat\<rfloor>"
proof -
  define x :: rat where "x = of_int s / of_nat n"
  define k where "k = \<lfloor>x + 1 / 2\<rfloor>"
  from n have n': "(0::rat) < of_nat n" by simp
  from s n' have x0: "0 \<le> x" by (simp add: x_def)
  from s(2) have "(of_int s :: rat) \<le> of_int (100 * int n)" by (simp only: of_int_le_iff)
  with n' have x100: "x \<le> 100" by (simp add: x_def pos_divide_le_eq)
  have k1: "of_int k \<le> x + 1 / 2" and k2: "x + 1 / 2 < of_int k + 1"
    unfolding k_def by linarith+
  from x0 k2 have k0: "0 \<le> k" by linarith
  have k100: "k \<le> 100"
  proof -
    from k1 x100 have "(of_int k :: rat) < of_int 101" by simp
    then have "k < 101" by (simp only: of_int_less_iff)
    then show ?thesis by simp
  qed
  have lower: "of_int k - 1 / 2 \<le> fl x"
  proof (cases "k = 0")
    case True
    from fl_mono [of 0 x] x0 have "0 \<le> fl x" by (simp add: fl_zero)
    with True show ?thesis by simp
  next
    case False
    with k0 have kp: "0 < 2 * k - 1" by simp
    from k100 have "2 * k - 1 < 2 ^ 53" by simp
    from fl_exact [OF kp this, of "- 1"]
    have ex: "fl (of_int k - 1 / 2) = of_int k - 1 / 2"
      by (simp add: power_int_minus field_simps)
    from kp have "(0::rat) < of_int (2 * k - 1)" by (simp only: of_int_0_less_iff)
    then have "(0::rat) \<le> of_int k - 1 / 2" by simp
    from fl_mono [OF this, of x] k1 ex show ?thesis by simp
  qed
  have upper: "fl x < of_int k + 1 / 2"
  proof (cases "x = 0")
    case True
    with k0 show ?thesis by (simp add: fl_zero)
  next
    case False
    define j where "j = (2 * k + 1) * 2 ^ 32 - 1"
    define hi :: rat where "hi = of_int j * 2 powi (- 33)"
    from k0 have jp: "0 < j" by (simp add: j_def)
    from k100 have jb: "j < 2 ^ 53" by (simp add: j_def)
    have hi: "hi = of_int k + 1 / 2 - 1 / 2 ^ 33"
      by (simp add: hi_def j_def power_int_minus field_simps)
    from k2 have "x < of_int (2 * k + 1) / 2" by simp
    with n' have "of_int s * 2 < (of_int (2 * k + 1) * of_nat n :: rat)"
      by (simp add: x_def field_simps)
    then have "(of_int (s * 2) :: rat) < of_int ((2 * k + 1) * int n)" by simp
    then have "s * 2 < (2 * k + 1) * int n" by (simp only: of_int_less_iff)
    then have "s * 2 + 1 \<le> (2 * k + 1) * int n" by simp
    then have "(of_int (s * 2 + 1) :: rat) \<le> of_int ((2 * k + 1) * int n)"
      by (simp only: of_int_le_iff)
    then have "of_int s * 2 + 1 \<le> (of_int (2 * k + 1) * of_nat n :: rat)" by simp
    with n' have xs: "x \<le> of_int k + 1 / 2 - 1 / (2 * of_nat n)"
      by (simp add: x_def field_simps)
    from n(2) have "(of_nat n :: rat) < of_nat (2 ^ 32)" by (simp only: of_nat_less_iff)
    then have "2 * (of_nat n :: rat) \<le> 2 ^ 33" by simp
    with n' have "1 / (2 ^ 33 :: rat) \<le> 1 / (2 * of_nat n)"
      by (intro divide_left_mono) simp_all
    with xs have "x \<le> hi" by (simp add: hi)
    from fl_mono [OF x0 this] fl_exact [OF jp jb, of "- 33"]
    have "fl x \<le> hi" by (simp add: hi_def)
    then show ?thesis by (simp add: hi)
  qed
  from lower upper have "\<lfloor>fl x + 1 / 2\<rfloor> = k"
    by (intro floor_unique) simp_all
  then show ?thesis by (simp add: Math_round_def x_def k_def)
qed

section \<open>Properties of the progress figures\<close>

lemma flattenSubs_nonempty: "subs \<noteq> [] \<Longrightarrow> flattenSubs subs \<noteq> []"
proof (cases subs)
  case Nil
  moreover assume "subs \<noteq> []"
  ultimately show ?thesis by simp
next
  case (Cons s ss)
  then show ?thesis by (cases s) simp
qed

lemma taskProg_encoded:
  assumes "subs \<noteq> []"
  shows "taskProg \<lparr>description = encodeDesc t subs, status = st\<rparr> =
           Some (Math_round
             (fl (fl (of_nat (countCompletedSubs subs) / of_nat (countAllSubs subs)) * 100)))"
proof -
  from assms have e: "encodeDesc t subs = Some (stringify_envelope t subs)"
    by (simp add: encodeDesc_def)
  have n: "nodes_of_json (map json_of_node subs) = Some subs"
    unfolding nodes_of_json_def by (rule node_of_json_inverse(2))
  from assms have "0 < countAllSubs subs"
    by (simp add: countAllSubs_def flattenSubs_nonempty)
  then show ?thesis
    by (simp add: taskProg_def e parseDesc_envelope [OF assms] n Let_def)
qed

lemma double_23_of_40: "Math_round (fl (fl (23 / 40) * 100)) = 57"
  by code_simp

text \<open>
  Claim C4 at a tie.  A task has 40 subtasks with distinct ids, each with an empty
  \<^verbatim>\<open>children\<close> array as the page creates them, of which 23 are completed.  \<^verbatim>\<open>taskProg\<close> divides first: the double nearest to
  \<open>23/40\<close> lies below it, its product with 100 rounds to a double below \<open>57.5\<close>, and
  \<^verbatim>\<open>Math.round\<close> gives 57.  The formula of the claim, \<open>round(100 * 23 / 40)\<close>, is 58.
\<close>

theorem taskProg_tie_rounds_down:
  "distinct (map node_id
      (map (\<lambda>k. Node [of_nat (0x100 + k)] (js ''step'') (k < 23) (Some [])) [0..<40]))
   \<and> countAllSubs
        (map (\<lambda>k. Node [of_nat (0x100 + k)] (js ''step'') (k < 23) (Some [])) [0..<40]) = 40
   \<and> countCompletedSubs
        (map (\<lambda>k. Node [of_nat (0x100 + k)] (js ''step'') (k < 23) (Some [])) [0..<40]) = 23
   \<and> taskProg \<lparr>description = encodeDesc (js ''report'')
          (map (\<lambda>k. Node [of_nat (0x100 + k)] (js ''step'') (k < 23) (Some [])) [0..<40]),
        status = js ''IN_PROGRESS''\<rparr> = Some 57
   \<and> Math_round (100 * 23 / 40) = 58"
proof -
  let ?T = "map (\<lambda>k. Node [of_nat (0x100 + k)] (js ''step'') (k < 23) (Some [])) [0..<40]"
  have d: "distinct (map node_id ?T)" by code_simp
  have a: "countAllSubs ?T = 40" by code_simp
  have c: "countCompletedSubs ?T = 23" by code_simp
  have "?T \<noteq> []" by (simp add: upt_rec)
  from taskProg_encoded [OF this, of "js ''report''" "js ''IN_PROGRESS''"]
  have "taskProg \<lparr>description = encodeDesc (js ''report'') ?T, status = js ''IN_PROGRESS''\<rparr>
          = Some 57"
    by (simp only: a c of_nat_numeral double_23_of_40)
  moreover have "Math_round (100 * 23 / 40) = 58"
    by (simp add: Math_round_def)
  ultimately show ?thesis using d a c by blast
qed

subsection \<open>The progress of a goal\<close>

lemma percent_bounds:
  assumes "c \<le> t" and "0 < t"
  shows "0 \<le> Math_round (fl (fl (of_nat c / of_nat t) * 100))"
    and "Math_round (fl (fl (of_nat c / of_nat t) * 100)) \<le> 100"
proof -
  define y where "y = fl (of_nat c / of_nat t)"
  define z where "z = fl (y * 100)"
  from assms have q: "(0::rat) \<le> of_nat c / of_nat t" "(of_nat c / of_nat t :: rat) \<le> 1"
    by simp_all
  from fl_mono [of 0 "of_nat c / of_nat t"] q have y0: "0 \<le> y"
    by (simp add: y_def fl_zero)
  from fl_mono [OF q] fl_of_int [of 1] have y1: "y \<le> 1"
    by (simp add: y_def)
  from y0 have "0 \<le> y * 100" by simp
  from fl_mono [of 0 "y * 100"] this have z0: "0 \<le> z"
    by (simp add: z_def fl_zero)
  from y1 have "y * 100 \<le> 100" by simp
  from fl_mono [OF \<open>0 \<le> y * 100\<close> this] fl_of_int [of 100] have z1: "z \<le> 100"
    by (simp add: z_def)
  from z0 show "0 \<le> Math_round (fl (fl (of_nat c / of_nat t) * 100))"
    unfolding Math_round_def z_def [symmetric] y_def [symmetric] by simp
  from z1 have "z + 1 / 2 < of_int 101" by simp
  then have "\<lfloor>z + 1 / 2\<rfloor> < 101" by (simp only: floor_less_iff)
  then show "Math_round (fl (fl (of_nat c / of_nat t) * 100)) \<le> 100"
    unfolding Math_round_def z_def [symmetric] y_def [symmetric] by simp
qed

lemma taskProg_bounds:
  assumes "taskProg tk = Some p"
  shows "0 \<le> p \<and> p \<le> 100"
proof -
  from assms obtain subs where
    n: "nodes_of_json (desc_subtasks (parseDesc (description tk))) = Some subs"
    by (auto simp: taskProg_def split: option.splits)
  have le: "countCompletedSubs subs \<le> countAllSubs subs"
    by (simp add: countCompletedSubs_def countAllSubs_def)
  show ?thesis
  proof (cases "0 < countAllSubs subs")
    case True
    with assms n have "p = Math_round
        (fl (fl (of_nat (countCompletedSubs subs) / of_nat (countAllSubs subs)) * 100))"
      by (simp add: taskProg_def Let_def)
    with percent_bounds [OF le True] show ?thesis by simp
  next
    case False
    with assms n show ?thesis
      by (auto simp: taskProg_def Let_def split: if_splits)
  qed
qed

lemma sum_progress_eq:
  "list_all (\<lambda>tk. taskProg tk \<noteq> None) ts \<Longrightarrow>
   sum_progress a ts = Some (a + sum_list (map (\<lambda>tk. the (taskProg tk)) ts))"
  by (induction ts arbitrary: a) (auto simp: add.assoc)

lemma sum_progress_bounds:
  "list_all (\<lambda>tk. taskProg tk \<noteq> None) ts \<Longrightarrow>
   0 \<le> sum_list (map (\<lambda>tk. the (taskProg tk)) ts)
   \<and> sum_list (map (\<lambda>tk. the (taskProg tk)) ts) \<le> 100 * int (length ts)"
proof (induction ts)
  case Nil
  show ?case by simp
next
  case (Cons tk ts)
  then obtain p where p: "taskProg tk = Some p" by auto
  from taskProg_bounds [OF p] Cons p show ?case by simp
qed

text \<open>
  Claim C9.  \<^verbatim>\<open>goalProg\<close> is the mean of \<^verbatim>\<open>taskProg\<close> over the tasks of all
  milestones of the goal, in order, rounded to the nearest integer (a tie going up), and
  0 for a goal without tasks.  The mean is the exact quotient: the progress of a task
  lies between 0 and 100, and for fewer than \<open>2\<^sup>3\<^sup>2\<close> tasks, which is every JavaScript
  array, the double division cannot carry the quotient across a tie.  The tasks are
  those whose descriptions hold subtask nodes of the data model or none.
\<close>

theorem goalProg_mean:
  assumes "list_all (\<lambda>tk. taskProg tk \<noteq> None) (allTasks g)"
    and "length (allTasks g) < 2 ^ 32"
  shows "goalProg g =
           Some (if allTasks g = [] then 0
                 else \<lfloor>of_int (sum_list (map (\<lambda>tk. the (taskProg tk)) (allTasks g)))
                        / of_nat (length (allTasks g)) + 1 / 2 :: rat\<rfloor>)"
proof (cases "allTasks g = []")
  case True
  then show ?thesis by (simp add: goalProg_def)
next
  case False
  define s where "s = sum_list (map (\<lambda>tk. the (taskProg tk)) (allTasks g))"
  from sum_progress_eq [OF assms(1), of 0] have sp: "sum_progress 0 (allTasks g) = Some s"
    by (simp add: s_def)
  from sum_progress_bounds [OF assms(1)] have b: "0 \<le> s" "s \<le> 100 * int (length (allTasks g))"
    by (simp_all add: s_def)
  from False have "0 < length (allTasks g)" by simp
  from Math_round_fl_div [OF b this assms(2)] False sp show ?thesis
    by (simp add: goalProg_def Let_def s_def)
qed

theorem goalProg_mean_witness:
  "map taskProg (allTasks (Some \<lparr>milestones = Some
      [\<lparr>tasks = Some [\<lparr>description = None, status = js ''COMPLETED''\<rparr>,
                       \<lparr>description = Some (js ''call the printer''), status = js ''IN_PROGRESS''\<rparr>]\<rparr>,
       \<lparr>tasks = None\<rparr>,
       \<lparr>tasks = Some [\<lparr>description = Some (js ''{\"text\":\"\",\"subtasks\":[{\"id\":\"a\",\"title\":\"A\",\"completed\":true,\"children\":[{\"id\":\"c\",\"title\":\"C\",\"completed\":false}]},{\"id\":\"b\",\"title\":\"B\",\"completed\":true}]}''),
                        status = js ''PENDING''\<rparr>]\<rparr>]\<rparr>))
     = [Some 100, Some 50, Some 67]
   \<and> goalProg (Some \<lparr>milestones = Some
      [\<lparr>tasks = Some [\<lparr>description = None, status = js ''COMPLETED''\<rparr>,
                       \<lparr>description = Some (js ''call the printer''), status = js ''IN_PROGRESS''\<rparr>]\<rparr>,
       \<lparr>tasks = None\<rparr>,
       \<lparr>tasks = Some [\<lparr>description = Some (js ''{\"text\":\"\",\"subtasks\":[{\"id\":\"a\",\"title\":\"A\",\"completed\":true,\"children\":[{\"id\":\"c\",\"title\":\"C\",\"completed\":false}]},{\"id\":\"b\",\"title\":\"B\",\"completed\":true}]}''),
                        status = js ''PENDING''\<rparr>]\<rparr>]\<rparr>)
     = Some 72
   \<and> goalProg (Some \<lparr>milestones = Some [\<lparr>tasks = Some []\<rparr>]\<rparr>) = Some 0"
proof -
  let ?g = "Some \<lparr>milestones = Some
      [\<lparr>tasks = Some [\<lparr>description = None, status = js ''COMPLETED''\<rparr>,
                       \<lparr>description = Some (js ''call the printer''), status = js ''IN_PROGRESS''\<rparr>]\<rparr>,
       \<lparr>tasks = None\<rparr>,
       \<lparr>tasks = Some [\<lparr>description = Some (js ''{\"text\":\"\",\"subtasks\":[{\"id\":\"a\",\"title\":\"A\",\"completed\":true,\"children\":[{\"id\":\"c\",\"title\":\"C\",\"completed\":false}]},{\"id\":\"b\",\"title\":\"B\",\"completed\":true}]}''),
                        status = js ''PENDING''\<rparr>]\<rparr>]\<rparr>"
  let ?e = "Some \<lparr>milestones = Some [\<lparr>tasks = Some []\<rparr>]\<rparr>"
  have m: "map taskProg (allTasks ?g) = [Some 100, Some 50, Some 67]"
    by code_simp
  have l: "length (allTasks ?g) = 3" "allTasks ?e = []"
    by (simp_all add: allTasks_def)
  have "map the (map taskProg (allTasks ?g)) = [100, 50, 67]"
    unfolding m by simp
  then have m': "map (\<lambda>tk. the (taskProg tk)) (allTasks ?g) = [100, 50, 67]"
    by (simp only: map_map o_def)
  have "list_all (\<lambda>p. p \<noteq> None) (map taskProg (allTasks ?g))"
    unfolding m by simp
  then have h1: "list_all (\<lambda>tk. taskProg tk \<noteq> None) (allTasks ?g)"
    by (simp only: list.pred_map o_def)
  have h2: "length (allTasks ?g) < 2 ^ 32" by (simp add: l)
  have h3: "list_all (\<lambda>tk. taskProg tk \<noteq> None) (allTasks ?e)"
    and h4: "length (allTasks ?e) < 2 ^ 32" by (simp_all add: l)
  have ne: "allTasks ?g \<noteq> []" using l(1) by auto
  have v: "\<lfloor>of_int (sum_list [100, 50, 67]) / of_nat 3 + 1 / 2 :: rat\<rfloor> = 72"
    by code_simp
  from goalProg_mean [OF h1 h2] have "goalProg ?g = Some 72"
    by (simp only: m' l ne if_False v)
  moreover from goalProg_mean [OF h3 h4] have "goalProg ?e = Some 0"
    by (simp add: l)
  ultimately show ?thesis using m by blast
qed

end
